theory Spec2Isabelle
  imports Main "HOL-Library.Sublist"
begin

section \<open>RenderEngineThreaded: a single-worker active object\<close>

text \<open>
  The source is \<^verbatim>\<open>libs/renderengine/threaded/RenderEngineThreaded.cpp\<close>.  One worker
  thread runs \<^verbatim>\<open>threadMain\<close>; any number of caller threads run the public member
  functions; one owner thread runs the constructor and, later, the destructor.  The
  embedding is an interleaving semantics: every thread has a program counter whose values
  are the statements of the source function it is in, a step of a thread runs one
  statement atomically, and a schedule (a list of thread choices) drives the whole.
  A thread whose statement cannot run (a mutex that is taken, a future that is not ready,
  a join on a running thread, a thread asleep in a condition wait) has no step.

  Left out, because they touch no state of the class: \<^verbatim>\<open>ATRACE_CALL\<close>,
  \<^verbatim>\<open>ATRACE_NAME\<close>, \<^verbatim>\<open>sched_setscheduler\<close>, \<^verbatim>\<open>ALOGE\<close> and
  \<^verbatim>\<open>pthread_setname_np\<close>.
\<close>

subsection \<open>Threads, calls and values\<close>

datatype thread = Worker | Owner | Caller nat

text \<open>
  The member functions that push a task, with the arguments the lambda captures.  The
  argument types of the render engine interface (display settings, layers, buffers, fences,
  rectangles) are opaque to this class; they are numbers here.
\<close>

datatype call =
    PrimeCache
  | Dump string
  | GenTextures nat
  | DeleteTextures nat "nat list"
  | MapExternalTextureBuffer nat bool
  | UnmapExternalTextureBuffer nat
  | UseProtectedContext bool
  | CleanupPostRender nat
  | SetViewportAndProjection "int \<times> int \<times> int \<times> int" "int \<times> int \<times> int \<times> int"
  | DrawLayers nat "nat list" nat bool int
  | CleanFramebufferCache
  | GetContextPriority
  | OnPrimaryDisplaySizeChanged nat nat

text \<open>The member functions that read \<^verbatim>\<open>mRenderEngine\<close> on the calling thread.\<close>

datatype accessor =
    GetMaxTextureSize
  | GetMaxViewportDims
  | IsProtected
  | SupportsProtectedContent
  | SupportsBackgroundBlur

datatype pubop = Queued call | Direct accessor

text \<open>
  What an operation of the render engine hands back: its return value together with what
  it writes through its out-parameters (the texture names of \<^verbatim>\<open>genTextures\<close>, the
  string of \<^verbatim>\<open>dump\<close>, the fence of \<^verbatim>\<open>drawLayers\<close>).
\<close>

datatype val = VVoid | VBool bool | VInt int | VStatus int | VSize nat | VString string

text \<open>
  The functions that create a \<^verbatim>\<open>std::promise\<close>, capture it in the lambda and end in
  \<^verbatim>\<open>resultFuture.get()\<close> or \<^verbatim>\<open>resultFuture.wait()\<close>; the others return after
  \<^verbatim>\<open>notify_one\<close>.
\<close>

fun is_sync :: "call \<Rightarrow> bool" where
  "is_sync PrimeCache = False"
| "is_sync (Dump _) = True"
| "is_sync (GenTextures _) = True"
| "is_sync (DeleteTextures _ _) = True"
| "is_sync (MapExternalTextureBuffer _ _) = False"
| "is_sync (UnmapExternalTextureBuffer _) = False"
| "is_sync (UseProtectedContext _) = True"
| "is_sync (CleanupPostRender _) = True"
| "is_sync (SetViewportAndProjection _ _) = True"
| "is_sync (DrawLayers _ _ _ _ _) = True"
| "is_sync CleanFramebufferCache = False"
| "is_sync GetContextPriority = True"
| "is_sync (OnPrimaryDisplaySizeChanged _ _) = False"

text \<open>
  The render engine behind the facade (\<^verbatim>\<open>renderengine::RenderEngine\<close>, created by the
  \<^verbatim>\<open>CreateInstanceFactory\<close>) is not part of this file of the source: it is a parameter.
  \<open>'r\<close> is its state; \<open>factory\<close> is the instance the factory returns, \<open>invoke\<close> is a
  mutating member function and \<open>query\<close> a const one.
\<close>

record 'r engine =
  factory :: "'r"
  invoke :: "call \<Rightarrow> 'r \<Rightarrow> 'r \<times> val"
  query :: "accessor \<Rightarrow> 'r \<Rightarrow> val"

text \<open>
  A task is the lambda pushed on \<^verbatim>\<open>mFunctionCalls\<close>: the engine call it makes, whether
  it captured \<^verbatim>\<open>&resultPromise\<close>, and which invocation built it (the calling thread and
  the number of calls that thread had finished before), which names the promise on that
  caller's stack.
\<close>

record task =
  t_call :: call
  t_origin :: "nat \<times> nat"
  t_sync :: bool

subsection \<open>Program counters\<close>

text \<open>\<^verbatim>\<open>threadMain\<close>, lines 63 to 96.\<close>

datatype wpc =
    W_NotStarted
  | W_Factory
  | W_Lock
  | W_InitLock
  | W_InitSet
  | W_InitUnlock
  | W_InitNotify
  | W_LoopCond
  | W_CheckQueue
  | W_Pop
  | W_Invoke task
  | W_Finish task val
  | W_WaitPred
  | W_Sleep
  | W_Reacq
  | W_Reset
  | W_Unlock
  | W_Done
  | W_Fault

text \<open>The constructor (lines 42 to 48) and the destructor (lines 50 to 60).\<close>

datatype opc =
    O_CtorLock
  | O_CtorSpawn
  | O_CtorUnlock
  | O_Alive
  | D_Clear
  | D_Notify
  | D_Unlock
  | D_Join
  | D_Returned

text \<open>
  A caller: the queued member functions (\<open>C_\<close>), \<^verbatim>\<open>waitUntilInitialized\<close> followed by
  a direct read (\<open>A_\<close>), and the extra lock of \<^verbatim>\<open>isProtected\<close> (\<open>P_\<close>).
\<close>

datatype cpc =
    C_Idle
  | C_Lock call
  | C_Push call
  | C_Unlock call
  | C_Notify call
  | C_Get call
  | A_Lock accessor
  | A_Pred accessor
  | A_Sleep accessor
  | A_Reacq accessor
  | A_Unlock accessor
  | P_Lock
  | A_Read accessor
  | P_Unlock val
  | C_Fault

record caller =
  c_pc :: cpc
  c_todo :: "pubop list"
  c_count :: nat

subsection \<open>The shared state and the observable events\<close>

text \<open>
  The first six fields are the data members of the class that the source file uses; a
  mutex is the thread that holds it, if any.  Then come the program counters of the worker
  and of the owner, the callers, and the promises: \<open>promises\<close> holds the values set on the
  promises of the blocking calls, newest first, under the invocation that owns the promise.
\<close>

record 'r state =
  mRunning :: bool
  mFunctionCalls :: "task list"
  mRenderEngine :: "'r option"
  mIsInitialized :: bool
  mThreadMutex :: "thread option"
  mInitializedMutex :: "thread option"
  wpc :: wpc
  opc :: opc
  callers :: "caller list"
  promises :: "((nat \<times> nat) \<times> val) list"

text \<open>
  What an observer of the run records: the construction and the destruction of the engine
  with the thread that did it, the assignment of \<^verbatim>\<open>mIsInitialized\<close>, the push of a
  task, the engine call a task makes (with the engine as it was and the result), the end of
  a task, the return of a member function to caller \<open>i\<close> from its \<open>k\<close>-th call with a
  value, and the three steps of the destructor.
\<close>

datatype 'r event =
    Constructed thread
  | Destroyed thread
  | InitSet
  | Pushed task
  | Invoked task 'r val
  | Finished task val
  | Returned nat nat pubop val
  | ShutCleared
  | ShutSignalled
  | ShutJoined

type_synonym 'r config = "'r state \<times> 'r event list"

text \<open>
  \<^verbatim>\<open>std::mutex\<close>: a lock is taken only when nobody holds the mutex; an unlock is done by
  \<^verbatim>\<open>lock_guard\<close> and \<^verbatim>\<open>unique_lock\<close> for the thread that holds it.
\<close>

definition release :: "thread \<Rightarrow> thread option \<Rightarrow> thread option" where
  "release th m = (if m = Some th then None else m)"

text \<open>
  \<^verbatim>\<open>mCondition.notify_one()\<close>: only the worker ever waits on \<^verbatim>\<open>mCondition\<close>.
\<close>

definition notify_worker :: "wpc \<Rightarrow> wpc" where
  "notify_worker p = (if p = W_Sleep then W_Reacq else p)"

text \<open>\<^verbatim>\<open>mInitializedCondition.notify_all()\<close>: every caller asleep in the wait wakes.\<close>

definition wake_caller :: "caller \<Rightarrow> caller" where
  "wake_caller c = (case c_pc c of A_Sleep a \<Rightarrow> c\<lparr>c_pc := A_Reacq a\<rparr> | _ \<Rightarrow> c)"

subsection \<open>The worker: \<^verbatim>\<open>threadMain\<close>\<close>

text \<open>
  One statement of the worker.  \<^verbatim>\<open>W_Factory\<close> is line 72, \<^verbatim>\<open>W_Lock\<close> line 74,
  \<^verbatim>\<open>W_InitLock\<close> to \<^verbatim>\<open>W_InitNotify\<close> lines 78 to 81, \<^verbatim>\<open>W_LoopCond\<close> the test of
  line 83, \<^verbatim>\<open>W_CheckQueue\<close> the test of line 84, \<^verbatim>\<open>W_Pop\<close> lines 85 and 86.  Line 87
  runs the lambda: \<^verbatim>\<open>W_Invoke\<close> is its call of the engine and \<^verbatim>\<open>W_Finish\<close> its end,
  with \<^verbatim>\<open>resultPromise.set_value\<close> when the lambda captured a promise.
  \<^verbatim>\<open>mCondition.wait(lock, pred)\<close> of lines 89 to 91 is \<^verbatim>\<open>while (!pred()) wait(lock)\<close>:
  \<^verbatim>\<open>W_WaitPred\<close> evaluates the predicate with the lock held and, when it is false,
  releases the lock and sleeps (\<^verbatim>\<open>W_Sleep\<close>); once woken the worker takes the lock again
  (\<^verbatim>\<open>W_Reacq\<close>) and evaluates the predicate again.  \<^verbatim>\<open>W_Reset\<close> is line 95 and
  \<^verbatim>\<open>W_Unlock\<close> the destructor of the \<^verbatim>\<open>unique_lock\<close> at line 96.  Taking the front of
  an empty queue or dereferencing a null \<^verbatim>\<open>mRenderEngine\<close> is a fault (\<^verbatim>\<open>W_Fault\<close>).
\<close>

definition wstep :: "'r engine \<Rightarrow> 'r state \<Rightarrow> ('r state \<times> 'r event list) option" where
  "wstep eng s = (case wpc s of
      W_NotStarted \<Rightarrow> None
    | W_Factory \<Rightarrow>
        Some (s\<lparr>mRenderEngine := Some (factory eng), wpc := W_Lock\<rparr>, [Constructed Worker])
    | W_Lock \<Rightarrow>
        (if mThreadMutex s = None
         then Some (s\<lparr>mThreadMutex := Some Worker, wpc := W_InitLock\<rparr>, [])
         else None)
    | W_InitLock \<Rightarrow>
        (if mInitializedMutex s = None
         then Some (s\<lparr>mInitializedMutex := Some Worker, wpc := W_InitSet\<rparr>, [])
         else None)
    | W_InitSet \<Rightarrow> Some (s\<lparr>mIsInitialized := True, wpc := W_InitUnlock\<rparr>, [InitSet])
    | W_InitUnlock \<Rightarrow>
        Some (s\<lparr>mInitializedMutex := release Worker (mInitializedMutex s),
                wpc := W_InitNotify\<rparr>, [])
    | W_InitNotify \<Rightarrow>
        Some (s\<lparr>callers := map wake_caller (callers s), wpc := W_LoopCond\<rparr>, [])
    | W_LoopCond \<Rightarrow> Some (s\<lparr>wpc := (if mRunning s then W_CheckQueue else W_Reset)\<rparr>, [])
    | W_CheckQueue \<Rightarrow>
        Some (s\<lparr>wpc := (if mFunctionCalls s \<noteq> [] then W_Pop else W_WaitPred)\<rparr>, [])
    | W_Pop \<Rightarrow>
        (case mFunctionCalls s of
           [] \<Rightarrow> Some (s\<lparr>wpc := W_Fault\<rparr>, [])
         | t # q \<Rightarrow> Some (s\<lparr>mFunctionCalls := q, wpc := W_Invoke t\<rparr>, []))
    | W_Invoke t \<Rightarrow>
        (case mRenderEngine s of
           None \<Rightarrow> Some (s\<lparr>wpc := W_Fault\<rparr>, [])
         | Some r \<Rightarrow>
             Some (s\<lparr>mRenderEngine := Some (fst (invoke eng (t_call t) r)),
                     wpc := W_Finish t (snd (invoke eng (t_call t) r))\<rparr>,
                   [Invoked t r (snd (invoke eng (t_call t) r))]))
    | W_Finish t v \<Rightarrow>
        Some (s\<lparr>promises := (if t_sync t then (t_origin t, v) # promises s else promises s),
                wpc := W_WaitPred\<rparr>, [Finished t v])
    | W_WaitPred \<Rightarrow>
        (if \<not> mRunning s \<or> mFunctionCalls s \<noteq> []
         then Some (s\<lparr>wpc := W_LoopCond\<rparr>, [])
         else Some (s\<lparr>mThreadMutex := release Worker (mThreadMutex s), wpc := W_Sleep\<rparr>, []))
    | W_Sleep \<Rightarrow> None
    | W_Reacq \<Rightarrow>
        (if mThreadMutex s = None
         then Some (s\<lparr>mThreadMutex := Some Worker, wpc := W_WaitPred\<rparr>, [])
         else None)
    | W_Reset \<Rightarrow> Some (s\<lparr>mRenderEngine := None, wpc := W_Unlock\<rparr>, [Destroyed Worker])
    | W_Unlock \<Rightarrow>
        Some (s\<lparr>mThreadMutex := release Worker (mThreadMutex s), wpc := W_Done\<rparr>, [])
    | W_Done \<Rightarrow> None
    | W_Fault \<Rightarrow> None)"

subsection \<open>The owner: constructor and destructor\<close>

text \<open>
  One statement of the owner.  The constructor takes \<^verbatim>\<open>mThreadMutex\<close> (line 46), creates
  the thread (line 47) and releases the mutex on return (line 48).  From \<^verbatim>\<open>O_Alive\<close> the
  next statement of the owner is the \<^verbatim>\<open>lock_guard\<close> of the destructor (line 52); then
  come the assignment (line 53), \<^verbatim>\<open>notify_one\<close> (line 54), the end of the block
  (line 55) and the join (lines 57 to 59), which returns once the worker has returned from
  \<^verbatim>\<open>threadMain\<close>.  The thread was created by the constructor, so it is joinable.
\<close>

definition ostep :: "'r state \<Rightarrow> ('r state \<times> 'r event list) option" where
  "ostep s = (case opc s of
      O_CtorLock \<Rightarrow>
        (if mThreadMutex s = None
         then Some (s\<lparr>mThreadMutex := Some Owner, opc := O_CtorSpawn\<rparr>, [])
         else None)
    | O_CtorSpawn \<Rightarrow> Some (s\<lparr>wpc := W_Factory, opc := O_CtorUnlock\<rparr>, [])
    | O_CtorUnlock \<Rightarrow>
        Some (s\<lparr>mThreadMutex := release Owner (mThreadMutex s), opc := O_Alive\<rparr>, [])
    | O_Alive \<Rightarrow>
        (if mThreadMutex s = None
         then Some (s\<lparr>mThreadMutex := Some Owner, opc := D_Clear\<rparr>, [])
         else None)
    | D_Clear \<Rightarrow> Some (s\<lparr>mRunning := False, opc := D_Notify\<rparr>, [ShutCleared])
    | D_Notify \<Rightarrow> Some (s\<lparr>wpc := notify_worker (wpc s), opc := D_Unlock\<rparr>, [ShutSignalled])
    | D_Unlock \<Rightarrow>
        Some (s\<lparr>mThreadMutex := release Owner (mThreadMutex s), opc := D_Join\<rparr>, [])
    | D_Join \<Rightarrow>
        (if wpc s = W_Done then Some (s\<lparr>opc := D_Returned\<rparr>, [ShutJoined]) else None)
    | D_Returned \<Rightarrow> None)"

subsection \<open>The callers: the public member functions\<close>

text \<open>
  A member function can be entered once the constructor has returned.  Nothing in the
  class keeps a caller from entering one while the destructor runs, so the model allows
  that too.
\<close>

definition constructed :: "'r state \<Rightarrow> bool" where
  "constructed s = (opc s \<noteq> O_CtorLock \<and> opc s \<noteq> O_CtorSpawn \<and> opc s \<noteq> O_CtorUnlock)"

definition set_caller :: "nat \<Rightarrow> caller \<Rightarrow> 'r state \<Rightarrow> 'r state" where
  "set_caller i c s = s\<lparr>callers := (callers s)[i := c]\<rparr>"

definition entry :: "pubop \<Rightarrow> cpc" where
  "entry p = (case p of Queued cl \<Rightarrow> C_Lock cl | Direct a \<Rightarrow> A_Lock a)"

definition finish_call :: "caller \<Rightarrow> caller" where
  "finish_call c = c\<lparr>c_pc := C_Idle, c_count := Suc (c_count c)\<rparr>"

text \<open>
  One statement of caller \<open>i\<close>, whose own record is \<open>c\<close>.  \<^verbatim>\<open>C_Idle\<close> enters the next
  member function of the caller's list; \<^verbatim>\<open>C_Lock\<close> to \<^verbatim>\<open>C_Get\<close> are the body shared
  by the queued member functions (lines 103 to 193, 218 to 314, 321 to 332);
  \<^verbatim>\<open>A_Lock\<close> to \<^verbatim>\<open>A_Unlock\<close> are \<^verbatim>\<open>waitUntilInitialized\<close> (lines 98 to 101);
  \<^verbatim>\<open>A_Read\<close> is the dereference of \<^verbatim>\<open>mRenderEngine\<close> (lines 195 to 216, 316 to 319),
  between \<^verbatim>\<open>P_Lock\<close> and \<^verbatim>\<open>P_Unlock\<close> for \<^verbatim>\<open>isProtected\<close>.  Dereferencing a null
  \<^verbatim>\<open>mRenderEngine\<close> is a fault.
\<close>

definition cbody ::
  "'r engine \<Rightarrow> nat \<Rightarrow> caller \<Rightarrow> 'r state \<Rightarrow> ('r state \<times> 'r event list) option" where
  "cbody eng i c s =
      (case c_pc c of
        C_Idle \<Rightarrow>
          (case c_todo c of
             [] \<Rightarrow> None
           | p # ps \<Rightarrow>
               (if constructed s
                then Some (set_caller i (c\<lparr>c_pc := entry p, c_todo := ps\<rparr>) s, [])
                else None))
      | C_Lock cl \<Rightarrow>
          (if mThreadMutex s = None
           then Some (set_caller i (c\<lparr>c_pc := C_Push cl\<rparr>)
                        (s\<lparr>mThreadMutex := Some (Caller i)\<rparr>), [])
           else None)
      | C_Push cl \<Rightarrow>
          Some (set_caller i (c\<lparr>c_pc := C_Unlock cl\<rparr>)
                  (s\<lparr>mFunctionCalls := mFunctionCalls s @
                       [\<lparr>t_call = cl, t_origin = (i, c_count c), t_sync = is_sync cl\<rparr>]\<rparr>),
                [Pushed \<lparr>t_call = cl, t_origin = (i, c_count c), t_sync = is_sync cl\<rparr>])
      | C_Unlock cl \<Rightarrow>
          Some (set_caller i (c\<lparr>c_pc := C_Notify cl\<rparr>)
                  (s\<lparr>mThreadMutex := release (Caller i) (mThreadMutex s)\<rparr>), [])
      | C_Notify cl \<Rightarrow>
          (if is_sync cl
           then Some (set_caller i (c\<lparr>c_pc := C_Get cl\<rparr>) (s\<lparr>wpc := notify_worker (wpc s)\<rparr>), [])
           else Some (set_caller i (finish_call c) (s\<lparr>wpc := notify_worker (wpc s)\<rparr>),
                      [Returned i (c_count c) (Queued cl) VVoid]))
      | C_Get cl \<Rightarrow>
          (case map_of (promises s) (i, c_count c) of
             None \<Rightarrow> None
           | Some v \<Rightarrow>
               Some (set_caller i (finish_call c) s, [Returned i (c_count c) (Queued cl) v]))
      | A_Lock a \<Rightarrow>
          (if mInitializedMutex s = None
           then Some (set_caller i (c\<lparr>c_pc := A_Pred a\<rparr>)
                        (s\<lparr>mInitializedMutex := Some (Caller i)\<rparr>), [])
           else None)
      | A_Pred a \<Rightarrow>
          (if mIsInitialized s
           then Some (set_caller i (c\<lparr>c_pc := A_Unlock a\<rparr>) s, [])
           else Some (set_caller i (c\<lparr>c_pc := A_Sleep a\<rparr>)
                        (s\<lparr>mInitializedMutex := release (Caller i) (mInitializedMutex s)\<rparr>), []))
      | A_Sleep a \<Rightarrow> None
      | A_Reacq a \<Rightarrow>
          (if mInitializedMutex s = None
           then Some (set_caller i (c\<lparr>c_pc := A_Pred a\<rparr>)
                        (s\<lparr>mInitializedMutex := Some (Caller i)\<rparr>), [])
           else None)
      | A_Unlock a \<Rightarrow>
          Some (set_caller i (c\<lparr>c_pc := (if a = IsProtected then P_Lock else A_Read a)\<rparr>)
                  (s\<lparr>mInitializedMutex := release (Caller i) (mInitializedMutex s)\<rparr>), [])
      | P_Lock \<Rightarrow>
          (if mThreadMutex s = None
           then Some (set_caller i (c\<lparr>c_pc := A_Read IsProtected\<rparr>)
                        (s\<lparr>mThreadMutex := Some (Caller i)\<rparr>), [])
           else None)
      | A_Read a \<Rightarrow>
          (case mRenderEngine s of
             None \<Rightarrow> Some (set_caller i (c\<lparr>c_pc := C_Fault\<rparr>) s, [])
           | Some r \<Rightarrow>
               (if a = IsProtected
                then Some (set_caller i (c\<lparr>c_pc := P_Unlock (query eng a r)\<rparr>) s, [])
                else Some (set_caller i (finish_call c) s,
                           [Returned i (c_count c) (Direct a) (query eng a r)])))
      | P_Unlock v \<Rightarrow>
          Some (set_caller i (finish_call c)
                  (s\<lparr>mThreadMutex := release (Caller i) (mThreadMutex s)\<rparr>),
                [Returned i (c_count c) (Direct IsProtected) v])
      | C_Fault \<Rightarrow> None)"

definition cstep ::
  "'r engine \<Rightarrow> nat \<Rightarrow> 'r state \<Rightarrow> ('r state \<times> 'r event list) option" where
  "cstep eng i s = (if i < length (callers s) then cbody eng i (callers s ! i) s else None)"

subsection \<open>Schedules\<close>

text \<open>
  A schedule picks, at each moment, a thread to run one statement, or a thread to wake
  from a condition wait with no notification (\<^verbatim>\<open>std::condition_variable\<close> permits
  spurious wake-ups).  Picking a thread that cannot move changes nothing.
\<close>

datatype action = Run thread | Spurious thread

definition step ::
  "'r engine \<Rightarrow> thread \<Rightarrow> 'r state \<Rightarrow> ('r state \<times> 'r event list) option" where
  "step eng th s = (case th of Worker \<Rightarrow> wstep eng s | Owner \<Rightarrow> ostep s | Caller i \<Rightarrow> cstep eng i s)"

definition wake :: "thread \<Rightarrow> 'r state \<Rightarrow> 'r state" where
  "wake th s = (case th of
      Worker \<Rightarrow> s\<lparr>wpc := notify_worker (wpc s)\<rparr>
    | Owner \<Rightarrow> s
    | Caller i \<Rightarrow> (if i < length (callers s) then set_caller i (wake_caller (callers s ! i)) s else s))"

definition act :: "'r engine \<Rightarrow> 'r config \<Rightarrow> action \<Rightarrow> 'r config" where
  "act eng c a = (case a of
      Run th \<Rightarrow> (case step eng th (fst c) of None \<Rightarrow> c | Some (s', evs) \<Rightarrow> (s', snd c @ evs))
    | Spurious th \<Rightarrow> (wake th (fst c), snd c))"

definition run :: "'r engine \<Rightarrow> action list \<Rightarrow> 'r config \<Rightarrow> 'r config" where
  "run eng sched c = foldl (act eng) c sched"

text \<open>
  Modelled from the spec: the header \<^verbatim>\<open>RenderEngineThreaded.h\<close>, which declares the
  data members and gives them their initial values, is not among the source files.  The
  specification has the worker loop while a running flag is true, until the destructor
  clears it, and the initialisation flag unset until the worker has constructed the
  resource: \<^verbatim>\<open>mRunning\<close> starts true and \<^verbatim>\<open>mIsInitialized\<close> false.  The queue starts
  empty, \<^verbatim>\<open>mRenderEngine\<close> null and the mutexes free, as default construction leaves
  them.  This is the state when the constructor is entered; each caller has a list of calls
  still to make.
\<close>

definition init :: "pubop list list \<Rightarrow> 'r state" where
  "init progs = \<lparr>mRunning = True, mFunctionCalls = [], mRenderEngine = None,
     mIsInitialized = False, mThreadMutex = None, mInitializedMutex = None,
     wpc = W_NotStarted, opc = O_CtorLock,
     callers = map (\<lambda>p. \<lparr>c_pc = C_Idle, c_todo = p, c_count = 0\<rparr>) progs,
     promises = []\<rparr>"

text \<open>The state reached, and the events seen, when a schedule is run from the start.\<close>

definition state_of :: "'r engine \<Rightarrow> pubop list list \<Rightarrow> action list \<Rightarrow> 'r state" where
  "state_of eng progs sched = fst (run eng sched (init progs, []))"

definition trace_of :: "'r engine \<Rightarrow> pubop list list \<Rightarrow> action list \<Rightarrow> 'r event list" where
  "trace_of eng progs sched = snd (run eng sched (init progs, []))"

subsection \<open>A small engine and schedules to run the model on\<close>

text \<open>
  An engine that counts the calls made on it and remembers the protected-context flag;
  \<^verbatim>\<open>drawLayers\<close> with no layers fails with status \<open>-22\<close>.
\<close>

definition demo_engine :: "(nat \<times> bool) engine" where
  "demo_engine = \<lparr>
     factory = (0, False),
     invoke = (\<lambda>c r. case c of
         UseProtectedContext b \<Rightarrow> ((Suc (fst r), b), VBool True)
       | DrawLayers d ls buf cache fence \<Rightarrow>
           ((Suc (fst r), snd r), VStatus (if ls = [] then - 22 else 0))
       | GetContextPriority \<Rightarrow> ((Suc (fst r), snd r), VInt 1)
       | _ \<Rightarrow> ((Suc (fst r), snd r), VVoid)),
     query = (\<lambda>a r. case a of
         IsProtected \<Rightarrow> VBool (snd r)
       | GetMaxTextureSize \<Rightarrow> VSize 4096
       | GetMaxViewportDims \<Rightarrow> VSize 4096
       | _ \<Rightarrow> VBool True)\<rparr>"

definition demo_progs :: "pubop list list" where
  "demo_progs = [[Queued (UseProtectedContext True), Direct IsProtected],
                 [Queued PrimeCache, Queued (DrawLayers 0 [] 0 False 0)]]"

text \<open>
  The constructor runs; caller 1 pushes \<^verbatim>\<open>primeCache\<close> while the worker has not yet
  called the factory; the worker initialises and runs that task; caller 0 then pushes
  \<^verbatim>\<open>useProtectedContext(true)\<close>, the worker runs it, and caller 0 returns.
\<close>

definition demo_sched :: "action list" where
  "demo_sched = replicate 3 (Run Owner) @ replicate 5 (Run (Caller 1))
     @ replicate 12 (Run Worker) @ replicate 5 (Run (Caller 0))
     @ replicate 7 (Run Worker) @ [Run (Caller 0)]"

text \<open>
  After \<open>demo_sched\<close> the worker goes to sleep on the empty queue; the owner runs the
  destructor up to the join; the worker wakes, sees \<^verbatim>\<open>mRunning\<close> false, resets the
  engine and returns; the join returns.
\<close>

definition shutdown_sched :: "action list" where
  "shutdown_sched = demo_sched @ [Run Worker] @ replicate 4 (Run Owner)
     @ replicate 5 (Run Worker) @ [Run Owner]"

text \<open>
  Caller 1 pushes \<^verbatim>\<open>primeCache\<close>, the worker initialises and takes that task from the
  queue, and caller 0 enters \<^verbatim>\<open>useProtectedContext\<close> while the task is running.
\<close>

definition busy_sched :: "action list" where
  "busy_sched = replicate 3 (Run Owner) @ replicate 5 (Run (Caller 1))
     @ replicate 9 (Run Worker) @ [Run (Caller 0)]"

text \<open>
  After \<open>busy_sched\<close> the worker ends the task and goes to sleep on the empty queue, and
  caller 0 takes the lock and pushes.
\<close>

definition unblock_sched :: "action list" where
  "unblock_sched = replicate 3 (Run Worker) @ replicate 2 (Run (Caller 0))"

text \<open>
  After \<open>demo_sched\<close> the worker goes to sleep and caller 0 runs \<^verbatim>\<open>isProtected\<close> up to
  the dereference of \<^verbatim>\<open>mRenderEngine\<close>.
\<close>

definition read_sched :: "action list" where
  "read_sched = demo_sched @ [Run Worker] @ replicate 5 (Run (Caller 0))"


text \<open>
  The worker initialises and sleeps on the empty queue; caller 0 pushes
  \<^verbatim>\<open>useProtectedContext(true)\<close> and releases the lock; before it signals, the owner
  enters the destructor and clears \<^verbatim>\<open>mRunning\<close>.
\<close>

definition pending_sched :: "action list" where
  "pending_sched = replicate 3 (Run Owner) @ replicate 9 (Run Worker)
     @ replicate 4 (Run (Caller 0)) @ replicate 2 (Run Owner)"

text \<open>The destructor and the worker then run to their ends, and the caller signals.\<close>

definition rest_sched :: "action list" where
  "rest_sched = replicate 2 (Run Owner) @ [Run (Caller 0)] @ replicate 5 (Run Worker)
     @ [Run Owner, Run (Caller 0), Run Worker]"



text \<open>
  The constructor runs and caller 1 pushes both its tasks (and blocks in the second call)
  before the worker has run at all.
\<close>

definition boot_sched :: "action list" where
  "boot_sched = replicate 3 (Run Owner) @ replicate 10 (Run (Caller 1))"

section \<open>Program points, traces and invariants\<close>

subsection \<open>Classes of program counters\<close>

text \<open>
  Where the worker is in \<^verbatim>\<open>threadMain\<close>: \<open>wlocked\<close> between taking
  \<^verbatim>\<open>mThreadMutex\<close> (line 74) and the end of the function, but for the sleep inside
  \<^verbatim>\<open>mCondition.wait\<close>; \<open>has_engine\<close> from the return of the factory (line 72) to the
  reset (line 95); \<open>init_done\<close> after the assignment of \<^verbatim>\<open>mIsInitialized\<close> (line 79),
  \<open>init_locked\<close> inside the block that holds \<^verbatim>\<open>mInitializedMutex\<close> (lines 77 to 80),
  \<open>init_notified\<close> after \<^verbatim>\<open>notify_all\<close> (line 81); \<open>in_body\<close> in the body of the
  loop from the test of the queue to the end of the task (lines 84 to 88), \<open>executing\<close> inside
  the task (line 87); \<open>exited\<close> after the loop.
\<close>

fun wlocked :: "wpc \<Rightarrow> bool" where
  "wlocked W_NotStarted = False"
| "wlocked W_Factory = False"
| "wlocked W_Lock = False"
| "wlocked W_Sleep = False"
| "wlocked W_Reacq = False"
| "wlocked W_Done = False"
| "wlocked _ = True"

fun has_engine :: "wpc \<Rightarrow> bool" where
  "has_engine W_NotStarted = False"
| "has_engine W_Factory = False"
| "has_engine W_Unlock = False"
| "has_engine W_Done = False"
| "has_engine _ = True"

fun init_done :: "wpc \<Rightarrow> bool" where
  "init_done W_NotStarted = False"
| "init_done W_Factory = False"
| "init_done W_Lock = False"
| "init_done W_InitLock = False"
| "init_done W_InitSet = False"
| "init_done _ = True"

fun init_locked :: "wpc \<Rightarrow> bool" where
  "init_locked W_InitSet = True"
| "init_locked W_InitUnlock = True"
| "init_locked _ = False"

fun init_notified :: "wpc \<Rightarrow> bool" where
  "init_notified W_NotStarted = False"
| "init_notified W_Factory = False"
| "init_notified W_Lock = False"
| "init_notified W_InitLock = False"
| "init_notified W_InitSet = False"
| "init_notified W_InitUnlock = False"
| "init_notified W_InitNotify = False"
| "init_notified _ = True"

fun in_body :: "wpc \<Rightarrow> bool" where
  "in_body W_CheckQueue = True"
| "in_body W_Pop = True"
| "in_body (W_Invoke t) = True"
| "in_body (W_Finish t v) = True"
| "in_body _ = False"

fun executing :: "wpc \<Rightarrow> bool" where
  "executing (W_Invoke t) = True"
| "executing (W_Finish t v) = True"
| "executing _ = False"

fun exited :: "wpc \<Rightarrow> bool" where
  "exited W_Reset = True"
| "exited W_Unlock = True"
| "exited W_Done = True"
| "exited _ = False"

text \<open>
  Where the owner is: \<open>olocked\<close> while it holds \<^verbatim>\<open>mThreadMutex\<close> (constructor line 46 to
  48, destructor lines 52 to 55); \<open>running_pc\<close> before the assignment of line 53;
  \<open>unspawned\<close> before the thread is created (line 47).
\<close>

fun olocked :: "opc \<Rightarrow> bool" where
  "olocked O_CtorSpawn = True"
| "olocked O_CtorUnlock = True"
| "olocked D_Clear = True"
| "olocked D_Notify = True"
| "olocked D_Unlock = True"
| "olocked _ = False"

fun running_pc :: "opc \<Rightarrow> bool" where
  "running_pc D_Notify = False"
| "running_pc D_Unlock = False"
| "running_pc D_Join = False"
| "running_pc D_Returned = False"
| "running_pc _ = True"

fun unspawned :: "opc \<Rightarrow> bool" where
  "unspawned O_CtorLock = True"
| "unspawned O_CtorSpawn = True"
| "unspawned _ = False"


fun past_wait :: "cpc \<Rightarrow> bool" where
  "past_wait (A_Unlock a) = True"
| "past_wait P_Lock = True"
| "past_wait (A_Read a) = True"
| "past_wait (P_Unlock v) = True"
| "past_wait _ = False"

fun asleep :: "cpc \<Rightarrow> bool" where
  "asleep (A_Sleep a) = True"
| "asleep _ = False"

fun holds_init :: "cpc \<Rightarrow> bool" where
  "holds_init (A_Pred a) = True"
| "holds_init (A_Unlock a) = True"
| "holds_init _ = False"

fun accessor_pc :: "cpc \<Rightarrow> bool" where
  "accessor_pc (A_Lock a) = True"
| "accessor_pc (A_Pred a) = True"
| "accessor_pc (A_Sleep a) = True"
| "accessor_pc (A_Reacq a) = True"
| "accessor_pc (A_Unlock a) = True"
| "accessor_pc P_Lock = True"
| "accessor_pc (A_Read a) = True"
| "accessor_pc (P_Unlock v) = True"
| "accessor_pc _ = False"

fun holds_queue :: "cpc \<Rightarrow> bool" where
  "holds_queue (C_Push cl) = True"
| "holds_queue (C_Unlock cl) = True"
| "holds_queue (A_Read a) = (a = IsProtected)"
| "holds_queue (P_Unlock v) = True"
| "holds_queue _ = False"

fun pushing :: "cpc \<Rightarrow> bool" where
  "pushing (C_Push cl) = True"
| "pushing (C_Unlock cl) = True"
| "pushing (C_Notify cl) = True"
| "pushing _ = False"

fun after_push :: "cpc \<Rightarrow> call \<Rightarrow> bool" where
  "after_push (C_Unlock cl) c = (c = cl)"
| "after_push (C_Notify cl) c = (c = cl)"
| "after_push (C_Get cl) c = (c = cl)"
| "after_push _ c = False"

subsection \<open>Projections of the trace\<close>

text \<open>
  The tasks pushed, and the tasks whose engine call was made, in the order of the trace;
  the task the worker has taken from the queue and not yet called (\<open>inflight\<close>) or called
  and not yet finished (\<open>current\<close>).
\<close>

fun pushed :: "'r event list \<Rightarrow> task list" where
  "pushed [] = []"
| "pushed (Pushed t # es) = t # pushed es"
| "pushed (_ # es) = pushed es"

fun invoked :: "'r event list \<Rightarrow> task list" where
  "invoked [] = []"
| "invoked (Invoked t r v # es) = t # invoked es"
| "invoked (_ # es) = invoked es"

fun inflight :: "wpc \<Rightarrow> task list" where
  "inflight (W_Invoke t) = [t]"
| "inflight _ = []"

fun current :: "wpc \<Rightarrow> task option" where
  "current (W_Finish t v) = Some t"
| "current _ = None"

text \<open>
  \<open>serial b tr\<close>: starting with the task \<open>b\<close> running (or none), the trace never starts
  a task while another runs, and ends only the task that runs; \<open>busy b tr\<close> is the task
  running after the trace.
\<close>

fun serial :: "task option \<Rightarrow> 'r event list \<Rightarrow> bool" where
  "serial b [] = True"
| "serial b (Invoked t r v # es) = (b = None \<and> serial (Some t) es)"
| "serial b (Finished t v # es) = (b = Some t \<and> serial None es)"
| "serial b (_ # es) = serial b es"

fun busy :: "task option \<Rightarrow> 'r event list \<Rightarrow> task option" where
  "busy b [] = b"
| "busy b (Invoked t r v # es) = busy (Some t) es"
| "busy b (Finished t v # es) = busy None es"
| "busy b (_ # es) = busy b es"

text \<open>
Kinds of events.
\<close>

fun is_constructed :: "'r event \<Rightarrow> bool" where
  "is_constructed (Constructed th) = True"
| "is_constructed _ = False"

fun is_destroyed :: "'r event \<Rightarrow> bool" where
  "is_destroyed (Destroyed th) = True"
| "is_destroyed _ = False"

fun is_life :: "'r event \<Rightarrow> bool" where
  "is_life (Constructed th) = True"
| "is_life (Destroyed th) = True"
| "is_life _ = False"

fun is_initset :: "'r event \<Rightarrow> bool" where
  "is_initset InitSet = True"
| "is_initset _ = False"

fun is_invoked :: "'r event \<Rightarrow> bool" where
  "is_invoked (Invoked t r v) = True"
| "is_invoked _ = False"

fun is_cleared :: "'r event \<Rightarrow> bool" where
  "is_cleared ShutCleared = True"
| "is_cleared _ = False"

fun is_joined :: "'r event \<Rightarrow> bool" where
  "is_joined ShutJoined = True"
| "is_joined _ = False"

fun is_shut :: "'r event \<Rightarrow> bool" where
  "is_shut ShutCleared = True"
| "is_shut ShutSignalled = True"
| "is_shut ShutJoined = True"
| "is_shut _ = False"

text \<open>
The construction and destruction events there must have been, by where the worker is.
\<close>

fun life_of :: "wpc \<Rightarrow> 'r event list" where
  "life_of W_NotStarted = []"
| "life_of W_Factory = []"
| "life_of W_Unlock = [Constructed Worker, Destroyed Worker]"
| "life_of W_Done = [Constructed Worker, Destroyed Worker]"
| "life_of _ = [Constructed Worker]"

text \<open>
The events of the destructor there must have been, by where the owner is.
\<close>

fun shut_of :: "opc \<Rightarrow> 'r event list" where
  "shut_of D_Notify = [ShutCleared]"
| "shut_of D_Unlock = [ShutCleared, ShutSignalled]"
| "shut_of D_Join = [ShutCleared, ShutSignalled]"
| "shut_of D_Returned = [ShutCleared, ShutSignalled, ShutJoined]"
| "shut_of _ = []"

text \<open>
  \<open>ordered B R tr\<close>: every event of the trace that satisfies \<open>B\<close> has an earlier event
  related to it by \<open>R\<close>.
\<close>

definition ordered :: "('e \<Rightarrow> bool) \<Rightarrow> ('e \<Rightarrow> 'e \<Rightarrow> bool) \<Rightarrow> 'e list \<Rightarrow> bool" where
  "ordered B R tr = (\<forall>n<length tr. B (tr ! n) \<longrightarrow> (\<exists>m<n. R (tr ! m) (tr ! n)))"

text \<open>
The return of a blocking queued call.
\<close>

fun sync_return :: "'r event \<Rightarrow> bool" where
  "sync_return (Returned i k (Queued cl) v) = is_sync cl"
| "sync_return _ = False"

text \<open>
  \<open>delivers x e\<close>: \<open>x\<close> is the end of the task that the invocation returning in \<open>e\<close> built,
  with the value \<open>e\<close> returns.  \<open>computes eng x e\<close>: \<open>x\<close> is the engine call of that task,
  and its result on the engine as it was is the value \<open>e\<close> returns.
\<close>

fun delivers :: "'r event \<Rightarrow> 'r event \<Rightarrow> bool" where
  "delivers (Finished t w) (Returned i k (Queued cl) v) =
     (w = v \<and> t_origin t = (i, k) \<and> t_sync t \<and> t_call t = cl)"
| "delivers _ _ = False"

fun computes :: "'r engine \<Rightarrow> 'r event \<Rightarrow> 'r event \<Rightarrow> bool" where
  "computes eng (Invoked t r w) (Returned i k (Queued cl) v) =
     (w = v \<and> t_origin t = (i, k) \<and> t_call t = cl \<and> v = snd (invoke eng cl r))"
| "computes eng _ _ = False"

text \<open>
The worker alone runs \<open>n\<close> statements.
\<close>

definition wrun :: "'r engine \<Rightarrow> nat \<Rightarrow> 'r config \<Rightarrow> 'r config" where
  "wrun eng n c = run eng (replicate n (Run Worker)) c"

subsection \<open>Invariants\<close>

text \<open>
  The worker has not started exactly as long as the constructor has not created the thread.
\<close>

definition inv_spawn :: "'r state \<Rightarrow> bool" where
  "inv_spawn s = ((wpc s = W_NotStarted) = unspawned (opc s))"

text \<open>
  The worker and the owner hold \<^verbatim>\<open>mThreadMutex\<close> where their code says they do, and
  the worker holds it nowhere else.
\<close>

definition inv_lock :: "'r state \<Rightarrow> bool" where
  "inv_lock s = ((wlocked (wpc s) \<longrightarrow> mThreadMutex s = Some Worker)
    \<and> (olocked (opc s) \<longrightarrow> mThreadMutex s = Some Owner))"

definition inv_lock2 :: "'r state \<Rightarrow> bool" where
  "inv_lock2 s = (mThreadMutex s = Some Worker \<longrightarrow> wlocked (wpc s))"

text \<open>
  \<^verbatim>\<open>mRenderEngine\<close> is non-null exactly from the return of the factory to the reset; the
  worker pops only from a non-empty queue and never faults.
\<close>

definition inv_eng :: "'r state \<Rightarrow> bool" where
  "inv_eng s = ((has_engine (wpc s) = (mRenderEngine s \<noteq> None))
    \<and> (wpc s = W_Pop \<longrightarrow> mFunctionCalls s \<noteq> []) \<and> wpc s \<noteq> W_Fault)"

text \<open>
  \<^verbatim>\<open>mIsInitialized\<close> is true exactly when the worker is past its assignment, which it
  makes holding \<^verbatim>\<open>mInitializedMutex\<close>.
\<close>

definition inv_init :: "'r state \<Rightarrow> bool" where
  "inv_init s = ((mIsInitialized s = init_done (wpc s))
    \<and> (init_locked (wpc s) \<longrightarrow> mInitializedMutex s = Some Worker))"

text \<open>
  \<^verbatim>\<open>mRunning\<close> is true exactly until the destructor's assignment; it is true while the
  worker is in the body of the loop and false once the worker is past the loop.
\<close>

definition inv_run :: "'r state \<Rightarrow> bool" where
  "inv_run s = ((mRunning s = running_pc (opc s)) \<and> (in_body (wpc s) \<longrightarrow> mRunning s)
    \<and> (exited (wpc s) \<longrightarrow> \<not> mRunning s))"

text \<open>
  For caller \<open>i\<close> at the program counter \<open>p\<close>: past the wait the flag is set; it holds the
  mutexes where its code says it does; and it is asleep in the wait only before the worker's
  \<^verbatim>\<open>notify_all\<close>.
\<close>

definition cinv :: "nat \<Rightarrow> 'r state \<Rightarrow> cpc \<Rightarrow> bool" where
  "cinv i s p = ((past_wait p \<longrightarrow> mIsInitialized s)
    \<and> (holds_queue p \<longrightarrow> mThreadMutex s = Some (Caller i))
    \<and> (holds_init p \<longrightarrow> mInitializedMutex s = Some (Caller i))
    \<and> (asleep p \<longrightarrow> \<not> init_notified (wpc s)))"

definition inv_callers :: "'r state \<Rightarrow> bool" where
  "inv_callers s = (\<forall>i<length (callers s). cinv i s (c_pc (callers s ! i)))"

definition inv_sys :: "'r state \<Rightarrow> bool" where
  "inv_sys s = (inv_spawn s \<and> inv_lock s \<and> inv_eng s \<and> inv_init s \<and> inv_run s \<and> inv_callers s)"

text \<open>
  The tasks pushed are the tasks called, then the one taken from the queue, then the queue.
  The trace is serial, and a task runs exactly when the worker is between the engine call
  and the end of the lambda.
\<close>

definition inv_fifo :: "'r config \<Rightarrow> bool" where
  "inv_fifo c = (pushed (snd c) =
     invoked (snd c) @ inflight (wpc (fst c)) @ mFunctionCalls (fst c))"

definition inv_serial :: "'r config \<Rightarrow> bool" where
  "inv_serial c = (serial None (snd c) \<and> busy None (snd c) = current (wpc (fst c)))"

text \<open>
  The life-cycle events of the trace are those the program counters account for, and no
  engine call is made before the flag is set.  The orders between the events of different
  kinds.
\<close>

definition inv_life :: "'r config \<Rightarrow> bool" where
  "inv_life c = (filter is_life (snd c) = life_of (wpc (fst c))
    \<and> filter is_initset (snd c) = (if init_done (wpc (fst c)) then [InitSet] else [])
    \<and> filter is_shut (snd c) = shut_of (opc (fst c))
    \<and> (\<not> init_done (wpc (fst c)) \<longrightarrow> invoked (snd c) = [])
    \<and> (opc (fst c) = D_Returned \<longrightarrow> wpc (fst c) = W_Done))"

definition inv_order :: "'r config \<Rightarrow> bool" where
  "inv_order c = (ordered is_initset (\<lambda>x y. x = Constructed Worker) (snd c)
    \<and> ordered is_invoked (\<lambda>x y. x = InitSet) (snd c)
    \<and> ordered is_destroyed (\<lambda>x y. x = ShutCleared) (snd c)
    \<and> ordered is_joined (\<lambda>x y. x = Destroyed Worker) (snd c))"

text \<open>
  Every task pushed was built by the invocation its \<open>t_origin\<close> names: an earlier call of
  that caller, or its current call, which is then past its push and is a call of the same
  member function with the same arguments.
\<close>

definition orig_pc :: "caller \<Rightarrow> nat \<Rightarrow> call \<Rightarrow> bool" where
  "orig_pc c k cl = (k < c_count c \<or> (k = c_count c \<and> after_push (c_pc c) cl))"

definition orig_ok :: "caller list \<Rightarrow> task \<Rightarrow> bool" where
  "orig_ok cs t = (t_sync t = is_sync (t_call t) \<and> fst (t_origin t) < length cs
    \<and> orig_pc (cs ! fst (t_origin t)) (snd (t_origin t)) (t_call t))"

definition inv_orig :: "'r config \<Rightarrow> bool" where
  "inv_orig c = (\<forall>t\<in>set (pushed (snd c)). orig_ok (callers (fst c)) t)"

text \<open>
  \<open>computed\<close>: the value is the result of the task's engine call, made earlier in the trace;
  \<open>delivered\<close>: the value was set on the promise of that invocation by the end of its task.
  Every promise set was delivered, every finished task was computed.
\<close>

definition computed :: "'r engine \<Rightarrow> 'r event list \<Rightarrow> task \<Rightarrow> val \<Rightarrow> bool" where
  "computed eng tr t v = (\<exists>r. Invoked t r v \<in> set tr \<and> v = snd (invoke eng (t_call t) r))"

definition delivered :: "'r event list \<Rightarrow> nat \<times> nat \<Rightarrow> val \<Rightarrow> bool" where
  "delivered tr og v = (\<exists>t. t_origin t = og \<and> Finished t v \<in> set tr)"

definition inv_prom :: "'r engine \<Rightarrow> 'r config \<Rightarrow> bool" where
  "inv_prom eng c = ((\<forall>og v. (og, v) \<in> set (promises (fst c)) \<longrightarrow> delivered (snd c) og v)
    \<and> (\<forall>t v. Finished t v \<in> set (snd c) \<longrightarrow> computed eng (snd c) t v)
    \<and> (\<forall>t v. wpc (fst c) = W_Finish t v \<longrightarrow> computed eng (snd c) t v))"

text \<open>
  Every return of a blocking call comes after the end, and after the engine call, of its own
  task, with the same value.
\<close>

definition inv_ret :: "'r engine \<Rightarrow> 'r config \<Rightarrow> bool" where
  "inv_ret eng c = (ordered sync_return delivers (snd c)
    \<and> ordered sync_return (computes eng) (snd c))"

text \<open>
  A caller of \<^verbatim>\<open>isProtected\<close> that has read the flag and still holds \<^verbatim>\<open>mThreadMutex\<close>
  has in hand what the engine's \<^verbatim>\<open>isProtected\<close> gives on the engine as it is now.
\<close>

definition inv_prot :: "'r engine \<Rightarrow> 'r state \<Rightarrow> bool" where
  "inv_prot eng s = (\<forall>i<length (callers s). \<forall>v. c_pc (callers s ! i) = P_Unlock v \<longrightarrow>
     (\<exists>r. mRenderEngine s = Some r \<and> v = query eng IsProtected r))"

section \<open>Proofs\<close>

subsection \<open>Program counters, mutexes and notifications\<close>

lemma notify_worker_simps [simp]:
  "wlocked (notify_worker p) = wlocked p"
  "has_engine (notify_worker p) = has_engine p"
  "init_done (notify_worker p) = init_done p"
  "init_locked (notify_worker p) = init_locked p"
  "in_body (notify_worker p) = in_body p"
  "executing (notify_worker p) = executing p"
  "exited (notify_worker p) = exited p"
  "(notify_worker p = W_NotStarted) = (p = W_NotStarted)"
  "(notify_worker p = W_Pop) = (p = W_Pop)"
  "(notify_worker p = W_Fault) = (p = W_Fault)"
  "(notify_worker p = W_Done) = (p = W_Done)"
  by (cases p; simp add: notify_worker_def; fail)+

lemma release_simps [simp]:
  "release th None = None"
  "release th (Some th) = None"
  "th' \<noteq> th \<Longrightarrow> release th (Some th') = Some th'"
  by (simp_all add: release_def)

lemma in_body_wlocked: "in_body p \<Longrightarrow> wlocked p"
  by (cases p) simp_all

subsection \<open>Reasoning about schedules\<close>

lemma cstepD:
  "cstep eng i s = Some x \<Longrightarrow> i < length (callers s) \<and> cbody eng i (callers s ! i) s = Some x"
  by (simp add: cstep_def split: if_splits)

lemma run_Nil [simp]: "run eng [] c = c"
  by (simp add: run_def)

lemma run_snoc [simp]: "run eng (sched @ [a]) c = act eng (run eng sched c) a"
  by (simp add: run_def)

lemma run_append: "run eng (xs @ ys) c = run eng ys (run eng xs c)"
  by (simp add: run_def)

lemma act_preserves:
  assumes c: "P c"
    and w: "\<And>s tr s' evs. P (s, tr) \<Longrightarrow> wstep eng s = Some (s', evs) \<Longrightarrow> P (s', tr @ evs)"
    and ow: "\<And>s tr s' evs. P (s, tr) \<Longrightarrow> ostep s = Some (s', evs) \<Longrightarrow> P (s', tr @ evs)"
    and ca: "\<And>s tr i s' evs. P (s, tr) \<Longrightarrow> i < length (callers s) \<Longrightarrow>
              cbody eng i (callers s ! i) s = Some (s', evs) \<Longrightarrow> P (s', tr @ evs)"
    and k: "\<And>s tr th. P (s, tr) \<Longrightarrow> P (wake th s, tr)"
  shows "P (act eng c a)"
proof (cases a)
  case (Spurious th)
  with c k [of "fst c" "snd c" th] show ?thesis
    by (simp add: act_def)
next
  case (Run th)
  show ?thesis
  proof (cases "step eng th (fst c)")
    case None
    with Run c show ?thesis by (simp add: act_def)
  next
    case (Some x)
    obtain s' evs where x: "x = (s', evs)" by (cases x)
    have "P (s', snd c @ evs)"
    proof (cases th)
      case Worker
      with Some x have "wstep eng (fst c) = Some (s', evs)" by (simp add: step_def)
      with c show ?thesis using w [of "fst c" "snd c" s' evs] by simp
    next
      case Owner
      with Some x have "ostep (fst c) = Some (s', evs)" by (simp add: step_def)
      with c show ?thesis using ow [of "fst c" "snd c" s' evs] by simp
    next
      case (Caller i)
      with Some x have "cstep eng i (fst c) = Some (s', evs)" by (simp add: step_def)
      from cstepD [OF this] c show ?thesis using ca [of "fst c" "snd c" i s' evs] by simp
    qed
    with Run Some x show ?thesis by (simp add: act_def)
  qed
qed

lemma run_preserves:
  assumes c: "P c"
    and w: "\<And>s tr s' evs. P (s, tr) \<Longrightarrow> wstep eng s = Some (s', evs) \<Longrightarrow> P (s', tr @ evs)"
    and ow: "\<And>s tr s' evs. P (s, tr) \<Longrightarrow> ostep s = Some (s', evs) \<Longrightarrow> P (s', tr @ evs)"
    and ca: "\<And>s tr i s' evs. P (s, tr) \<Longrightarrow> i < length (callers s) \<Longrightarrow>
              cbody eng i (callers s ! i) s = Some (s', evs) \<Longrightarrow> P (s', tr @ evs)"
    and k: "\<And>s tr th. P (s, tr) \<Longrightarrow> P (wake th s, tr)"
  shows "P (run eng sched c)"
proof (induction sched rule: rev_induct)
  case Nil
  from c show ?case by simp
next
  case (snoc a sched)
  show ?case
    unfolding run_snoc
    by (rule act_preserves [where P = P, OF snoc.IH]) (fact w ow ca k)+
qed

subsection \<open>Invariants of the shared state\<close>

lemma inv_spawn_init: "inv_spawn (init progs)"
  by (simp add: inv_spawn_def init_def)

lemma inv_lock_init: "inv_lock (init progs)"
  by (simp add: inv_lock_def init_def)

lemma inv_eng_init: "inv_eng (init progs)"
  by (simp add: inv_eng_def init_def)

lemma inv_init_init: "inv_init (init progs)"
  by (simp add: inv_init_def init_def)

lemma inv_run_init: "inv_run (init progs)"
  by (simp add: inv_run_def init_def)

lemma inv_spawn_wstep: "inv_spawn s \<Longrightarrow> wstep eng s = Some (s', evs) \<Longrightarrow> inv_spawn s'"
  by (cases "wpc s")
     (auto simp: inv_spawn_def wstep_def split: if_splits list.splits option.splits)

lemma inv_lock_wstep: "inv_lock s \<Longrightarrow> wstep eng s = Some (s', evs) \<Longrightarrow> inv_lock s'"
  by (cases "wpc s")
     (auto simp: inv_lock_def wstep_def split: if_splits list.splits option.splits)

lemma inv_eng_wstep: "inv_eng s \<Longrightarrow> wstep eng s = Some (s', evs) \<Longrightarrow> inv_eng s'"
  by (cases "wpc s")
     (auto simp: inv_eng_def wstep_def split: if_splits list.splits option.splits)

lemma inv_init_wstep: "inv_init s \<Longrightarrow> wstep eng s = Some (s', evs) \<Longrightarrow> inv_init s'"
  by (cases "wpc s")
     (auto simp: inv_init_def wstep_def split: if_splits list.splits option.splits)

lemma inv_run_wstep: "inv_run s \<Longrightarrow> wstep eng s = Some (s', evs) \<Longrightarrow> inv_run s'"
  by (cases "wpc s")
     (auto simp: inv_run_def wstep_def split: if_splits list.splits option.splits)

lemma inv_spawn_ostep: "inv_spawn s \<Longrightarrow> ostep s = Some (s', evs) \<Longrightarrow> inv_spawn s'"
  by (cases "opc s") (auto simp: inv_spawn_def ostep_def split: if_splits)

lemma inv_lock_ostep: "inv_lock s \<Longrightarrow> ostep s = Some (s', evs) \<Longrightarrow> inv_lock s'"
  by (cases "opc s") (auto simp: inv_lock_def ostep_def split: if_splits)

lemma inv_eng_ostep: "inv_spawn s \<Longrightarrow> inv_eng s \<Longrightarrow> ostep s = Some (s', evs) \<Longrightarrow> inv_eng s'"
  by (cases "opc s") (auto simp: inv_spawn_def inv_eng_def ostep_def split: if_splits)

lemma inv_init_ostep: "inv_spawn s \<Longrightarrow> inv_init s \<Longrightarrow> ostep s = Some (s', evs) \<Longrightarrow> inv_init s'"
  by (cases "opc s") (auto simp: inv_spawn_def inv_init_def ostep_def split: if_splits)

lemma inv_run_ostep:
  "inv_spawn s \<Longrightarrow> inv_lock s \<Longrightarrow> inv_run s \<Longrightarrow> ostep s = Some (s', evs) \<Longrightarrow> inv_run s'"
  by (cases "opc s")
     (auto simp: inv_spawn_def inv_lock_def inv_run_def ostep_def split: if_splits
           dest: in_body_wlocked)

lemma inv_spawn_cbody: "inv_spawn s \<Longrightarrow> cbody eng i c s = Some (s', evs) \<Longrightarrow> inv_spawn s'"
  by (cases "c_pc c"; clarsimp simp: inv_spawn_def cbody_def set_caller_def
           split: if_splits list.splits option.splits)

lemma inv_lock_cbody: "inv_lock s \<Longrightarrow> cbody eng i c s = Some (s', evs) \<Longrightarrow> inv_lock s'"
  by (cases "c_pc c"; clarsimp simp: inv_lock_def cbody_def set_caller_def
           split: if_splits list.splits option.splits)

lemma inv_eng_cbody: "inv_eng s \<Longrightarrow> cbody eng i c s = Some (s', evs) \<Longrightarrow> inv_eng s'"
  by (cases "c_pc c"; clarsimp simp: inv_eng_def cbody_def set_caller_def
           split: if_splits list.splits option.splits)

lemma inv_init_cbody: "inv_init s \<Longrightarrow> cbody eng i c s = Some (s', evs) \<Longrightarrow> inv_init s'"
  by (cases "c_pc c"; clarsimp simp: inv_init_def cbody_def set_caller_def
           split: if_splits list.splits option.splits)

lemma inv_run_cbody: "inv_run s \<Longrightarrow> cbody eng i c s = Some (s', evs) \<Longrightarrow> inv_run s'"
  by (cases "c_pc c"; clarsimp simp: inv_run_def cbody_def set_caller_def
           split: if_splits list.splits option.splits)

lemma inv_spawn_wake: "inv_spawn s \<Longrightarrow> inv_spawn (wake th s)"
  by (cases th; simp add: inv_spawn_def wake_def set_caller_def)

lemma inv_lock_wake: "inv_lock s \<Longrightarrow> inv_lock (wake th s)"
  by (cases th; simp add: inv_lock_def wake_def set_caller_def)

lemma inv_eng_wake: "inv_eng s \<Longrightarrow> inv_eng (wake th s)"
  by (cases th; simp add: inv_eng_def wake_def set_caller_def)

lemma inv_init_wake: "inv_init s \<Longrightarrow> inv_init (wake th s)"
  by (cases th; simp add: inv_init_def wake_def set_caller_def)

lemma inv_run_wake: "inv_run s \<Longrightarrow> inv_run (wake th s)"
  by (cases th) (auto simp: inv_run_def wake_def set_caller_def)

subsection \<open>Invariants of the callers\<close>

lemma init_notified_notify [simp]: "init_notified (notify_worker p) = init_notified p"
  by (cases p; simp add: notify_worker_def)

lemma init_notified_done: "init_notified p \<Longrightarrow> init_done p"
  by (cases p) simp_all

lemma wake_caller_simps [simp]:
  "past_wait (c_pc (wake_caller c)) = past_wait (c_pc c)"
  "holds_queue (c_pc (wake_caller c)) = holds_queue (c_pc c)"
  "holds_init (c_pc (wake_caller c)) = holds_init (c_pc c)"
  "\<not> asleep (c_pc (wake_caller c))"
  "c_count (wake_caller c) = c_count c"
  "c_todo (wake_caller c) = c_todo c"
  by (cases "c_pc c"; simp add: wake_caller_def; fail)+

lemma wstep_callers:
  "wstep eng s = Some (s', evs) \<Longrightarrow>
    callers s' = (if wpc s = W_InitNotify then map wake_caller (callers s) else callers s)"
  by (cases "wpc s"; clarsimp simp: wstep_def split: if_splits list.splits option.splits)

lemma cinv_wstep:
  "cinv i s p \<Longrightarrow> wstep eng s = Some (s', evs) \<Longrightarrow> wpc s \<noteq> W_InitNotify \<Longrightarrow> cinv i s' p"
  by (cases "wpc s"; clarsimp simp: cinv_def wstep_def split: if_splits list.splits option.splits)

lemma cinv_wstep_notify:
  "cinv i s (c_pc c) \<Longrightarrow> wstep eng s = Some (s', evs) \<Longrightarrow> wpc s = W_InitNotify \<Longrightarrow>
    cinv i s' (c_pc (wake_caller c))"
  by (clarsimp simp: cinv_def wstep_def)

lemma inv_callers_wstep:
  assumes "inv_callers s" and st: "wstep eng s = Some (s', evs)"
  shows "inv_callers s'"
  unfolding inv_callers_def
proof (intro allI impI)
  fix i
  assume "i < length (callers s')"
  with wstep_callers [OF st] have i: "i < length (callers s)"
    by (simp split: if_splits)
  with assms have c: "cinv i s (c_pc (callers s ! i))"
    by (simp add: inv_callers_def)
  show "cinv i s' (c_pc (callers s' ! i))"
  proof (cases "wpc s = W_InitNotify")
    case True
    with cinv_wstep_notify [OF c st] wstep_callers [OF st] i show ?thesis by simp
  next
    case False
    with cinv_wstep [OF c st] wstep_callers [OF st] show ?thesis by simp
  qed
qed

lemma ostep_callers: "ostep s = Some (s', evs) \<Longrightarrow> callers s' = callers s"
  by (cases "opc s"; clarsimp simp: ostep_def split: if_splits)

lemma cinv_ostep: "cinv i s p \<Longrightarrow> ostep s = Some (s', evs) \<Longrightarrow> cinv i s' p"
  by (cases "opc s"; clarsimp simp: cinv_def ostep_def split: if_splits)

lemma inv_callers_ostep:
  assumes "inv_callers s" and st: "ostep s = Some (s', evs)"
  shows "inv_callers s'"
  using assms ostep_callers [OF st] cinv_ostep [OF _ st]
  by (simp add: inv_callers_def)

lemma cbody_callers:
  "cbody eng j c s = Some (s', evs) \<Longrightarrow>
    length (callers s') = length (callers s) \<and> (\<forall>i. i \<noteq> j \<longrightarrow> callers s' ! i = callers s ! i)"
  by (cases "c_pc c"; clarsimp simp: cbody_def set_caller_def
        split: if_splits list.splits option.splits)

lemma cinv_cbody_other:
  "cinv i s p \<Longrightarrow> cbody eng j c s = Some (s', evs) \<Longrightarrow> i \<noteq> j \<Longrightarrow> cinv i s' p"
  by (cases "c_pc c"; clarsimp simp: cinv_def cbody_def set_caller_def
        split: if_splits list.splits option.splits)

lemma cinv_cbody_self:
  "cinv i s (c_pc c) \<Longrightarrow> inv_init s \<Longrightarrow> i < length (callers s) \<Longrightarrow>
    cbody eng i c s = Some (s', evs) \<Longrightarrow> cinv i s' (c_pc (callers s' ! i))"
  by (cases "c_pc c"; clarsimp simp: cinv_def cbody_def set_caller_def finish_call_def entry_def
        inv_init_def split: if_splits list.splits option.splits pubop.splits
        dest!: init_notified_done)

lemma inv_callers_cbody:
  assumes "inv_callers s" and "inv_init s" and j: "j < length (callers s)"
    and st: "cbody eng j (callers s ! j) s = Some (s', evs)"
  shows "inv_callers s'"
  unfolding inv_callers_def
proof (intro allI impI)
  fix i
  assume i': "i < length (callers s')"
  note c' = cbody_callers [OF st]
  with i' have i: "i < length (callers s)" by simp
  with assms have c: "cinv i s (c_pc (callers s ! i))"
    by (simp add: inv_callers_def)
  show "cinv i s' (c_pc (callers s' ! i))"
  proof (cases "i = j")
    case True
    with cinv_cbody_self [OF _ \<open>inv_init s\<close> j st] c show ?thesis by simp
  next
    case False
    with cinv_cbody_other [OF c st] c' show ?thesis by simp
  qed
qed

lemma inv_callers_wake: "inv_callers s \<Longrightarrow> inv_callers (wake th s)"
  by (cases th)
     (auto simp: inv_callers_def cinv_def wake_def set_caller_def nth_list_update)

lemma inv_callers_init: "inv_callers (init progs)"
  by (simp add: inv_callers_def cinv_def init_def)

subsection \<open>The invariants together\<close>

lemma inv_sys_init: "inv_sys (init progs)"
  by (simp add: inv_sys_def inv_spawn_init inv_lock_init inv_eng_init inv_init_init
      inv_run_init inv_callers_init)

lemma inv_sys_wstep: "inv_sys s \<Longrightarrow> wstep eng s = Some (s', evs) \<Longrightarrow> inv_sys s'"
  unfolding inv_sys_def
  by (intro conjI; (elim conjE)?)
     (erule (1) inv_spawn_wstep inv_lock_wstep inv_eng_wstep inv_init_wstep inv_run_wstep
        inv_callers_wstep)+

lemma inv_sys_ostep: "inv_sys s \<Longrightarrow> ostep s = Some (s', evs) \<Longrightarrow> inv_sys s'"
  unfolding inv_sys_def
  using inv_spawn_ostep [of s s' evs] inv_lock_ostep [of s s' evs] inv_eng_ostep [of s s' evs]
    inv_init_ostep [of s s' evs] inv_run_ostep [of s s' evs] inv_callers_ostep [of s s' evs]
  by blast

lemma inv_sys_cbody:
  "inv_sys s \<Longrightarrow> i < length (callers s) \<Longrightarrow> cbody eng i (callers s ! i) s = Some (s', evs) \<Longrightarrow>
    inv_sys s'"
  unfolding inv_sys_def
  using inv_spawn_cbody [of s eng i "callers s ! i" s' evs]
    inv_lock_cbody [of s eng i "callers s ! i" s' evs]
    inv_eng_cbody [of s eng i "callers s ! i" s' evs]
    inv_init_cbody [of s eng i "callers s ! i" s' evs]
    inv_run_cbody [of s eng i "callers s ! i" s' evs]
    inv_callers_cbody [of s i eng s' evs]
  by blast

lemma inv_sys_wake: "inv_sys s \<Longrightarrow> inv_sys (wake th s)"
  unfolding inv_sys_def
  using inv_spawn_wake [of s th] inv_lock_wake [of s th] inv_eng_wake [of s th]
    inv_init_wake [of s th] inv_run_wake [of s th] inv_callers_wake [of s th]
  by blast

lemma reach_invariant:
  assumes i: "Q (init progs, [])"
    and w: "\<And>s tr s' evs. inv_sys s \<Longrightarrow> Q (s, tr) \<Longrightarrow> wstep eng s = Some (s', evs) \<Longrightarrow>
              Q (s', tr @ evs)"
    and ow: "\<And>s tr s' evs. inv_sys s \<Longrightarrow> Q (s, tr) \<Longrightarrow> ostep s = Some (s', evs) \<Longrightarrow>
              Q (s', tr @ evs)"
    and ca: "\<And>s tr i s' evs. inv_sys s \<Longrightarrow> Q (s, tr) \<Longrightarrow> i < length (callers s) \<Longrightarrow>
              cbody eng i (callers s ! i) s = Some (s', evs) \<Longrightarrow> Q (s', tr @ evs)"
    and k: "\<And>s tr th. inv_sys s \<Longrightarrow> Q (s, tr) \<Longrightarrow> Q (wake th s, tr)"
  shows "inv_sys (fst (run eng sched (init progs, []))) \<and> Q (run eng sched (init progs, []))"
proof -
  let ?P = "\<lambda>c. inv_sys (fst c) \<and> Q c"
  have "?P (run eng sched (init progs, []))"
  proof (rule run_preserves [where P = ?P])
    show "?P (init progs, [])" using i by (simp add: inv_sys_init)
  next
    fix s tr s' evs
    assume "?P (s, tr)" "wstep eng s = Some (s', evs)"
    then show "?P (s', tr @ evs)" using w inv_sys_wstep by fastforce
  next
    fix s tr s' evs
    assume "?P (s, tr)" "ostep s = Some (s', evs)"
    then show "?P (s', tr @ evs)" using ow inv_sys_ostep by fastforce
  next
    fix s tr i s' evs
    assume "?P (s, tr)" "i < length (callers s)"
      "cbody eng i (callers s ! i) s = Some (s', evs)"
    then show "?P (s', tr @ evs)" using ca inv_sys_cbody by fastforce
  next
    fix s tr th
    assume "?P (s, tr)"
    then show "?P (wake th s, tr)" using k inv_sys_wake by fastforce
  qed
  then show ?thesis .
qed

lemma inv_sys_reach: "inv_sys (state_of eng progs sched)"
  unfolding state_of_def
  using reach_invariant [where Q = "\<lambda>c. True" and eng = eng and progs = progs and sched = sched]
  by simp

subsection \<open>The order of execution\<close>

lemma pushed_append [simp]: "pushed (xs @ ys) = pushed xs @ pushed ys"
  by (induction xs rule: pushed.induct) simp_all

lemma invoked_append [simp]: "invoked (xs @ ys) = invoked xs @ invoked ys"
  by (induction xs rule: invoked.induct) simp_all

lemma busy_append [simp]: "busy b (xs @ ys) = busy (busy b xs) ys"
  by (induction b xs rule: busy.induct) simp_all

lemma serial_append [simp]: "serial b (xs @ ys) = (serial b xs \<and> serial (busy b xs) ys)"
  by (induction b xs rule: serial.induct) simp_all

lemma inflight_notify [simp]: "inflight (notify_worker p) = inflight p"
  by (cases p; simp add: notify_worker_def)

lemma current_notify [simp]: "current (notify_worker p) = current p"
  by (cases p; simp add: notify_worker_def)

lemma inv_fifo_wstep:
  "inv_eng s \<Longrightarrow> inv_fifo (s, tr) \<Longrightarrow> wstep eng s = Some (s', evs) \<Longrightarrow>
    inv_fifo (s', tr @ evs)"
  by (cases "wpc s"; clarsimp simp: inv_fifo_def inv_eng_def wstep_def
        split: if_splits list.splits option.splits)

lemma inv_fifo_ostep:
  "inv_spawn s \<Longrightarrow> inv_fifo (s, tr) \<Longrightarrow> ostep s = Some (s', evs) \<Longrightarrow> inv_fifo (s', tr @ evs)"
  by (cases "opc s"; clarsimp simp: inv_fifo_def inv_spawn_def ostep_def split: if_splits)

lemma inv_fifo_cbody:
  "inv_fifo (s, tr) \<Longrightarrow> cbody eng i c s = Some (s', evs) \<Longrightarrow> inv_fifo (s', tr @ evs)"
  by (cases "c_pc c"; clarsimp simp: inv_fifo_def cbody_def set_caller_def
        split: if_splits list.splits option.splits)

lemma inv_fifo_wake: "inv_fifo (s, tr) \<Longrightarrow> inv_fifo (wake th s, tr)"
  by (cases th; simp add: inv_fifo_def wake_def set_caller_def)

lemma inv_serial_wstep:
  "inv_serial (s, tr) \<Longrightarrow> wstep eng s = Some (s', evs) \<Longrightarrow> inv_serial (s', tr @ evs)"
  by (cases "wpc s"; clarsimp simp: inv_serial_def wstep_def
        split: if_splits list.splits option.splits)

lemma inv_serial_ostep:
  "inv_spawn s \<Longrightarrow> inv_serial (s, tr) \<Longrightarrow> ostep s = Some (s', evs) \<Longrightarrow>
    inv_serial (s', tr @ evs)"
  by (cases "opc s"; clarsimp simp: inv_serial_def inv_spawn_def ostep_def split: if_splits)

lemma inv_serial_cbody:
  "inv_serial (s, tr) \<Longrightarrow> cbody eng i c s = Some (s', evs) \<Longrightarrow> inv_serial (s', tr @ evs)"
  by (cases "c_pc c"; clarsimp simp: inv_serial_def cbody_def set_caller_def
        split: if_splits list.splits option.splits)

lemma inv_serial_wake: "inv_serial (s, tr) \<Longrightarrow> inv_serial (wake th s, tr)"
  by (cases th; simp add: inv_serial_def wake_def set_caller_def)

lemma inv_fifo_reach: "inv_fifo (run eng sched (init progs, []))"
proof -
  have "inv_sys (fst (run eng sched (init progs, []))) \<and> inv_fifo (run eng sched (init progs, []))"
  proof (rule reach_invariant)
    show "inv_fifo (init progs, [])" by (simp add: inv_fifo_def init_def)
  qed (auto simp: inv_sys_def intro: inv_fifo_wstep inv_fifo_ostep inv_fifo_cbody inv_fifo_wake)
  then show ?thesis ..
qed

lemma inv_serial_reach: "inv_serial (run eng sched (init progs, []))"
proof -
  have "inv_sys (fst (run eng sched (init progs, []))) \<and> inv_serial (run eng sched (init progs, []))"
  proof (rule reach_invariant)
    show "inv_serial (init progs, [])" by (simp add: inv_serial_def init_def)
  qed (auto simp: inv_sys_def intro: inv_serial_wstep inv_serial_ostep inv_serial_cbody
         inv_serial_wake)
  then show ?thesis ..
qed

text \<open>
  C1.  Whatever the schedule, the worker runs the tasks one at a time (every
  \<open>Invoked\<close> event is followed by the \<open>Finished\<close> event of the same task before the next
  \<open>Invoked\<close>), and the tasks pushed so far are, in the order of their pushes, the tasks
  run so far, then the task taken from the queue and about to run, then the queue: tasks
  run in the order of their pushes, whichever thread pushed them and whether that call
  blocks or not.
\<close>

theorem C1_serialized_fifo:
  "serial None (trace_of eng progs sched) \<and>
   pushed (trace_of eng progs sched) =
     invoked (trace_of eng progs sched) @ inflight (wpc (state_of eng progs sched))
       @ mFunctionCalls (state_of eng progs sched)"
  using inv_fifo_reach [of eng sched progs] inv_serial_reach [of eng sched progs]
  by (simp add: inv_fifo_def inv_serial_def trace_of_def state_of_def)

theorem C1_serialized_fifo_witness:
  "invoked (trace_of demo_engine demo_progs demo_sched) =
     [\<lparr>t_call = PrimeCache, t_origin = (1, 0), t_sync = False\<rparr>,
      \<lparr>t_call = UseProtectedContext True, t_origin = (0, 0), t_sync = True\<rparr>] \<and>
   pushed (trace_of demo_engine demo_progs demo_sched) =
     invoked (trace_of demo_engine demo_progs demo_sched) \<and>
   serial None (trace_of demo_engine demo_progs demo_sched)"
proof -
  have a: "invoked (trace_of demo_engine demo_progs demo_sched) =
     [\<lparr>t_call = PrimeCache, t_origin = (1, 0), t_sync = False\<rparr>,
      \<lparr>t_call = UseProtectedContext True, t_origin = (0, 0), t_sync = True\<rparr>]"
    by code_simp
  have b: "inflight (wpc (state_of demo_engine demo_progs demo_sched)) = []"
    by code_simp
  have c: "mFunctionCalls (state_of demo_engine demo_progs demo_sched) = []"
    by code_simp
  from C1_serialized_fifo [of demo_engine demo_progs demo_sched] a b c
  show ?thesis by simp
qed

subsection \<open>Life cycle of the resource and of the dispatcher\<close>

lemma life_of_notify [simp]: "life_of (notify_worker p) = life_of p"
  by (cases p; simp add: notify_worker_def)

lemma ordered_Nil [simp]: "ordered B R []"
  by (simp add: ordered_def)

lemma ordered_snoc [simp]:
  "ordered B R (tr @ [e]) = (ordered B R tr \<and> (B e \<longrightarrow> (\<exists>x\<in>set tr. R x e)))"
proof -
  have a: "(\<forall>n<length tr. B ((tr @ [e]) ! n) \<longrightarrow> (\<exists>m<n. R ((tr @ [e]) ! m) ((tr @ [e]) ! n)))
    = ordered B R tr"
    unfolding ordered_def
    by (rule all_cong1, rule imp_cong, simp, rule imp_cong, simp add: nth_append,
        rule ex_cong1, auto simp: nth_append)
  have b: "(\<exists>m<length tr. R ((tr @ [e]) ! m) e) = (\<exists>x\<in>set tr. R x e)"
  proof
    assume "\<exists>m<length tr. R ((tr @ [e]) ! m) e"
    then obtain m where "m < length tr" "R (tr ! m) e" by (auto simp: nth_append)
    then show "\<exists>x\<in>set tr. R x e" using nth_mem by blast
  next
    assume "\<exists>x\<in>set tr. R x e"
    then obtain m where "m < length tr" "R (tr ! m) e" by (auto simp: in_set_conv_nth)
    then show "\<exists>m<length tr. R ((tr @ [e]) ! m) e" by (auto simp: nth_append)
  qed
  have "ordered B R (tr @ [e]) =
    ((\<forall>n<length tr. B ((tr @ [e]) ! n) \<longrightarrow> (\<exists>m<n. R ((tr @ [e]) ! m) ((tr @ [e]) ! n)))
     \<and> (B e \<longrightarrow> (\<exists>m<length tr. R ((tr @ [e]) ! m) e)))"
    unfolding ordered_def by (auto simp: less_Suc_eq)
  with a b show ?thesis by simp
qed

lemma filter_memD: "filter P tr = xs \<Longrightarrow> x \<in> set xs \<Longrightarrow> x \<in> set tr"
  by auto

lemma shut_of_cleared: "\<not> running_pc p \<Longrightarrow> ShutCleared \<in> set (shut_of p)"
  by (cases p) simp_all

lemma inv_life_wstep:
  "inv_life (s, tr) \<Longrightarrow> wstep eng s = Some (s', evs) \<Longrightarrow> inv_life (s', tr @ evs)"
  by (cases "wpc s"; clarsimp simp: inv_life_def wstep_def
        split: if_splits list.splits option.splits)

lemma inv_life_ostep:
  "inv_spawn s \<Longrightarrow> inv_life (s, tr) \<Longrightarrow> ostep s = Some (s', evs) \<Longrightarrow> inv_life (s', tr @ evs)"
  by (cases "opc s"; clarsimp simp: inv_life_def inv_spawn_def ostep_def split: if_splits)

lemma inv_life_cbody:
  "inv_life (s, tr) \<Longrightarrow> cbody eng i c s = Some (s', evs) \<Longrightarrow> inv_life (s', tr @ evs)"
  by (cases "c_pc c"; clarsimp simp: inv_life_def cbody_def set_caller_def
        split: if_splits list.splits option.splits)

lemma inv_life_wake: "inv_life (s, tr) \<Longrightarrow> inv_life (wake th s, tr)"
  by (cases th; simp add: inv_life_def wake_def set_caller_def)

lemma inv_life_reach: "inv_life (run eng sched (init progs, []))"
proof -
  have "inv_sys (fst (run eng sched (init progs, []))) \<and> inv_life (run eng sched (init progs, []))"
  proof (rule reach_invariant)
    show "inv_life (init progs, [])" by (simp add: inv_life_def init_def)
  qed (auto simp: inv_sys_def intro: inv_life_wstep inv_life_ostep inv_life_cbody inv_life_wake)
  then show ?thesis ..
qed

lemma inv_order_wstep:
  assumes "inv_run s" "inv_life (s, tr)" "inv_order (s, tr)" "wstep eng s = Some (s', evs)"
  shows "inv_order (s', tr @ evs)"
proof -
  have c: "wpc s = W_InitSet \<Longrightarrow> Constructed Worker \<in> set tr"
    using assms(2) by (auto simp: inv_life_def intro: filter_memD [where P = is_life])
  have i: "\<And>t. wpc s = W_Invoke t \<Longrightarrow> InitSet \<in> set tr"
    using assms(2) by (auto simp: inv_life_def intro: filter_memD [where P = is_initset])
  have d: "wpc s = W_Reset \<Longrightarrow> ShutCleared \<in> set tr"
    using assms(1,2)
    by (auto simp: inv_life_def inv_run_def intro: filter_memD [where P = is_shut]
          shut_of_cleared)
  from assms(3,4) c i d show ?thesis
    by (cases "wpc s"; clarsimp simp: inv_order_def wstep_def
          split: if_splits list.splits option.splits)
qed

lemma inv_order_ostep:
  assumes "inv_life (s, tr)" "inv_order (s, tr)" "ostep s = Some (s', evs)"
  shows "inv_order (s', tr @ evs)"
proof -
  have d: "wpc s = W_Done \<Longrightarrow> Destroyed Worker \<in> set tr"
    using assms(1) by (auto simp: inv_life_def intro: filter_memD [where P = is_life])
  from assms(2,3) d show ?thesis
    by (cases "opc s"; clarsimp simp: inv_order_def ostep_def split: if_splits)
qed

lemma inv_order_cbody:
  "inv_order (s, tr) \<Longrightarrow> cbody eng i c s = Some (s', evs) \<Longrightarrow> inv_order (s', tr @ evs)"
  by (cases "c_pc c"; clarsimp simp: inv_order_def cbody_def set_caller_def
        split: if_splits list.splits option.splits)

lemma inv_order_reach: "inv_order (run eng sched (init progs, []))"
proof -
  let ?Q = "\<lambda>c. inv_life c \<and> inv_order c"
  have "inv_sys (fst (run eng sched (init progs, []))) \<and> ?Q (run eng sched (init progs, []))"
  proof (rule reach_invariant [where Q = ?Q])
    show "?Q (init progs, [])" by (simp add: inv_life_def inv_order_def init_def)
  next
    fix s tr th
    assume "inv_sys s" "?Q (s, tr)"
    then show "?Q (wake th s, tr)" by (simp add: inv_life_wake inv_order_def)
  qed (auto simp: inv_sys_def intro: inv_life_wstep inv_life_ostep inv_life_cbody
         inv_order_wstep inv_order_ostep inv_order_cbody)
  then show ?thesis by simp
qed

lemma step_frame_engine:
  assumes "th \<noteq> Worker" "step eng th u = Some (u', evs)"
  shows "mRenderEngine u' = mRenderEngine u \<and> filter is_life evs = []"
proof (cases th)
  case Worker
  with assms show ?thesis by simp
next
  case Owner
  with assms have "ostep u = Some (u', evs)" by (simp add: step_def)
  then show ?thesis
    by (cases "opc u"; clarsimp simp: ostep_def split: if_splits)
next
  case (Caller i)
  with assms have "cstep eng i u = Some (u', evs)" by (simp add: step_def)
  from cstepD [OF this] have "cbody eng i (callers u ! i) u = Some (u', evs)" ..
  then show ?thesis
    by (cases "c_pc (callers u ! i)"; clarsimp simp: cbody_def set_caller_def
          split: if_splits list.splits option.splits)
qed

lemma wake_frame_engine: "mRenderEngine (wake th u) = mRenderEngine u"
  by (cases th; simp add: wake_def set_caller_def)

text \<open>
  C4.  Whatever the schedule: the events of the destructor are, in this order, the
  clearing of \<^verbatim>\<open>mRunning\<close>, the signal and the return of the join; the flag is cleared
  and the signal is sent while the owner holds \<^verbatim>\<open>mThreadMutex\<close>; once the destructor has
  returned the worker has left \<^verbatim>\<open>threadMain\<close> and \<^verbatim>\<open>mRenderEngine\<close> is null; and the
  join returns only after the worker has destroyed the engine.
\<close>

theorem C4_shutdown_sequence:
  assumes "s = state_of eng progs sched" and "tr = trace_of eng progs sched"
  shows "filter is_shut tr = shut_of (opc s)
    \<and> (opc s = D_Clear \<or> opc s = D_Notify \<longrightarrow> mThreadMutex s = Some Owner)
    \<and> (opc s = D_Returned \<longrightarrow> wpc s = W_Done \<and> mRenderEngine s = None)
    \<and> ordered is_joined (\<lambda>x y. x = Destroyed Worker) tr"
proof -
  have sys: "inv_sys s" using assms by (simp add: inv_sys_reach)
  have life: "inv_life (s, tr)"
    using assms inv_life_reach [of eng sched progs] by (simp add: state_of_def trace_of_def)
  have ord: "inv_order (s, tr)"
    using assms inv_order_reach [of eng sched progs] by (simp add: state_of_def trace_of_def)
  have "opc s = D_Clear \<or> opc s = D_Notify \<longrightarrow> mThreadMutex s = Some Owner"
    using sys by (auto simp: inv_sys_def inv_lock_def)
  moreover have "opc s = D_Returned \<longrightarrow> wpc s = W_Done \<and> mRenderEngine s = None"
    using sys life by (auto simp: inv_sys_def inv_eng_def inv_life_def)
  ultimately show ?thesis
    using life ord by (simp add: inv_life_def inv_order_def)
qed

theorem C4_shutdown_sequence_witness:
  "opc (state_of demo_engine demo_progs shutdown_sched) = D_Returned
   \<and> wpc (state_of demo_engine demo_progs shutdown_sched) = W_Done
   \<and> mRenderEngine (state_of demo_engine demo_progs shutdown_sched) = None
   \<and> filter is_shut (trace_of demo_engine demo_progs shutdown_sched) =
       [ShutCleared, ShutSignalled, ShutJoined]"
proof -
  have a: "opc (state_of demo_engine demo_progs shutdown_sched) = D_Returned"
    by code_simp
  from C4_shutdown_sequence [OF refl refl, of demo_engine demo_progs shutdown_sched] a
  show ?thesis by simp
qed

text \<open>
  C5.  Whatever the schedule: the construction and destruction events are exactly those
  the worker's position in \<^verbatim>\<open>threadMain\<close> accounts for, each done by the worker, once,
  construction first; \<^verbatim>\<open>mRenderEngine\<close> is non-null exactly from the return of the
  factory (before the lock and the loop) to the reset (before the function returns); the
  worker is past the loop only when \<^verbatim>\<open>mRunning\<close> is false, and the engine is destroyed only
  after the flag was cleared; no statement of any other thread, and no wake-up, assigns
  \<^verbatim>\<open>mRenderEngine\<close> or constructs or destroys an engine.
\<close>

theorem C5_thread_confined_lifetime:
  assumes "s = state_of eng progs sched" and "tr = trace_of eng progs sched"
  shows "filter is_life tr = life_of (wpc s)
    \<and> has_engine (wpc s) = (mRenderEngine s \<noteq> None)
    \<and> (exited (wpc s) \<longrightarrow> \<not> mRunning s)
    \<and> ordered is_destroyed (\<lambda>x y. x = ShutCleared) tr
    \<and> (\<forall>th u u' evs. th \<noteq> Worker \<and> step eng th u = Some (u', evs) \<longrightarrow>
          mRenderEngine u' = mRenderEngine u \<and> filter is_life evs = [])
    \<and> (\<forall>th u. mRenderEngine (wake th (u :: 'a state)) = mRenderEngine u)"
proof -
  have sys: "inv_sys s" using assms by (simp add: inv_sys_reach)
  have life: "inv_life (s, tr)"
    using assms inv_life_reach [of eng sched progs] by (simp add: state_of_def trace_of_def)
  have ord: "inv_order (s, tr)"
    using assms inv_order_reach [of eng sched progs] by (simp add: state_of_def trace_of_def)
  have f: "\<forall>th u u' evs. th \<noteq> Worker \<and> step eng th u = Some (u', evs) \<longrightarrow>
          mRenderEngine u' = mRenderEngine u \<and> filter is_life evs = []"
    using step_frame_engine by blast
  have l: "filter is_life tr = life_of (wpc s)"
    using life by (simp add: inv_life_def)
  have e: "has_engine (wpc s) = (mRenderEngine s \<noteq> None)"
    using sys by (simp add: inv_sys_def inv_eng_def)
  have r: "exited (wpc s) \<longrightarrow> \<not> mRunning s"
    using sys by (auto simp: inv_sys_def inv_run_def)
  have d: "ordered is_destroyed (\<lambda>x y. x = ShutCleared) tr"
    using ord by (simp add: inv_order_def)
  from l e r d f show ?thesis
    by (simp only: wake_frame_engine simp_thms)
qed

theorem C5_thread_confined_lifetime_witness:
  "filter is_life (trace_of demo_engine demo_progs shutdown_sched) =
     [Constructed Worker, Destroyed Worker]
   \<and> mRenderEngine (state_of demo_engine demo_progs shutdown_sched) = None
   \<and> mRenderEngine (state_of demo_engine demo_progs demo_sched) = Some (2, True)
   \<and> \<not> mRunning (state_of demo_engine demo_progs shutdown_sched)"
proof -
  have a: "wpc (state_of demo_engine demo_progs shutdown_sched) = W_Done"
    by code_simp
  have b: "mRenderEngine (state_of demo_engine demo_progs demo_sched) = Some (2, True)"
    by code_simp
  note t = C5_thread_confined_lifetime [OF refl refl, of demo_engine demo_progs shutdown_sched]
  from t have l: "filter is_life (trace_of demo_engine demo_progs shutdown_sched) =
      life_of (wpc (state_of demo_engine demo_progs shutdown_sched))"
    by (rule conjunct1)
  from t have e: "has_engine (wpc (state_of demo_engine demo_progs shutdown_sched)) =
      (mRenderEngine (state_of demo_engine demo_progs shutdown_sched) \<noteq> None)"
    by blast
  from t have r: "exited (wpc (state_of demo_engine demo_progs shutdown_sched)) \<longrightarrow>
      \<not> mRunning (state_of demo_engine demo_progs shutdown_sched)"
    by blast
  from a e have n: "mRenderEngine (state_of demo_engine demo_progs shutdown_sched) = None"
    by (simp del: not_None_eq)
  from a b l n r show ?thesis by simp
qed

subsection \<open>Who holds the queue lock\<close>

lemma executing_wlocked: "executing p \<Longrightarrow> wlocked p"
  by (cases p) simp_all

lemma inv_lock2_wstep:
  "inv_lock s \<Longrightarrow> inv_lock2 s \<Longrightarrow> wstep eng s = Some (s', evs) \<Longrightarrow> inv_lock2 s'"
  by (cases "wpc s"; clarsimp simp: inv_lock_def inv_lock2_def wstep_def
        split: if_splits list.splits option.splits)

lemma inv_lock2_ostep:
  "inv_lock s \<Longrightarrow> inv_lock2 s \<Longrightarrow> ostep s = Some (s', evs) \<Longrightarrow> inv_lock2 s'"
  by (cases "opc s"; clarsimp simp: inv_lock_def inv_lock2_def ostep_def release_def
        split: if_splits)

lemma inv_lock2_cbody:
  "inv_lock2 s \<Longrightarrow> cbody eng i c s = Some (s', evs) \<Longrightarrow> inv_lock2 s'"
  by (cases "c_pc c"; clarsimp simp: inv_lock2_def cbody_def set_caller_def release_def
        split: if_splits list.splits option.splits)

lemma inv_lock2_wake: "inv_lock2 s \<Longrightarrow> inv_lock2 (wake th s)"
  by (cases th; simp add: inv_lock2_def wake_def set_caller_def)

lemma inv_lock2_reach: "inv_lock2 (state_of eng progs sched)"
proof -
  let ?Q = "\<lambda>c. inv_lock2 (fst c)"
  have "inv_sys (fst (run eng sched (init progs, []))) \<and> ?Q (run eng sched (init progs, []))"
  proof (rule reach_invariant [where Q = ?Q])
    show "?Q (init progs, [])" by (simp add: inv_lock2_def init_def)
  qed (auto simp: inv_sys_def intro: inv_lock2_wstep inv_lock2_ostep inv_lock2_cbody
         inv_lock2_wake)
  then show ?thesis by (simp add: state_of_def)
qed

lemma cbody_locked_out:
  "c_pc c = C_Lock cl \<Longrightarrow> mThreadMutex s \<noteq> None \<Longrightarrow> cbody eng i c s = None"
  by (simp add: cbody_def)

lemma cbody_pushing: "pushing (c_pc c) \<or> holds_queue (c_pc c) \<Longrightarrow> cbody eng i c s \<noteq> None"
  by (cases "c_pc c"; simp add: cbody_def split: option.splits)

lemma inv_sys_run: "inv_sys s \<Longrightarrow> inv_sys (fst (run eng later (s, tr)))"
proof -
  let ?P = "\<lambda>c :: 'a config. inv_sys (fst c)"
  assume "inv_sys s"
  then have "?P (s, tr)" by simp
  then have "?P (run eng later (s, tr))"
  proof (rule run_preserves [where P = ?P])
    fix u tr' u' evs
    assume "?P (u, tr')" "wstep eng u = Some (u', evs)"
    then show "?P (u', tr' @ evs)" using inv_sys_wstep [of u eng u' evs] by simp
  next
    fix u tr' u' evs
    assume "?P (u, tr')" "ostep u = Some (u', evs)"
    then show "?P (u', tr' @ evs)" using inv_sys_ostep [of u u' evs] by simp
  next
    fix u tr' i u' evs
    assume "?P (u, tr')" "i < length (callers u)"
      "cbody eng i (callers u ! i) u = Some (u', evs)"
    then show "?P (u', tr' @ evs)" using inv_sys_cbody [of u i eng u' evs] by simp
  next
    fix u tr' th
    assume "?P (u, tr')"
    then show "?P (wake th u, tr')" using inv_sys_wake [of u th] by simp
  qed
  then show ?thesis .
qed

lemma worker_unlocks:
  "wlocked (wpc s) \<Longrightarrow> wstep eng s = Some (s', evs) \<Longrightarrow>
    (wlocked (wpc s') \<and> pushed evs = [])
    \<or> (wpc s = W_WaitPred \<and> mRunning s \<and> mFunctionCalls s = [] \<and> wpc s' = W_Sleep)
    \<or> (wpc s = W_Unlock \<and> wpc s' = W_Done)"
  by (cases "wpc s"; clarsimp simp: wstep_def split: if_splits list.splits option.splits)

lemma locked_ostep:
  "inv_spawn s \<Longrightarrow> wlocked (wpc s) \<Longrightarrow> ostep s = Some (s', evs) \<Longrightarrow>
    wlocked (wpc s') \<and> pushed evs = []"
  by (cases "opc s"; clarsimp simp: inv_spawn_def ostep_def split: if_splits)

lemma locked_cbody:
  "inv_lock s \<Longrightarrow> cinv i s (c_pc c) \<Longrightarrow> wlocked (wpc s) \<Longrightarrow>
    cbody eng i c s = Some (s', evs) \<Longrightarrow> wlocked (wpc s') \<and> pushed evs = []"
  by (cases "c_pc c"; clarsimp simp: inv_lock_def cinv_def cbody_def set_caller_def
        split: if_splits list.splits option.splits)

lemma locked_wake: "wlocked (wpc (wake th s)) = wlocked (wpc s)"
  by (cases th; simp add: wake_def set_caller_def)

lemma locked_act:
  assumes sys: "inv_sys s" and l: "wlocked (wpc s)"
  shows "(wlocked (wpc (fst (act eng (s, tr) a))) \<and> pushed (snd (act eng (s, tr) a)) = pushed tr)
    \<or> wpc (fst (act eng (s, tr) a)) = W_Sleep \<or> wpc (fst (act eng (s, tr) a)) = W_Done"
proof (cases a)
  case (Spurious th)
  with l show ?thesis by (simp add: act_def locked_wake)
next
  case (Run th)
  show ?thesis
  proof (cases "step eng th s")
    case None
    with Run l show ?thesis by (simp add: act_def)
  next
    case (Some x)
    obtain s' evs where x: "x = (s', evs)" by (cases x)
    have "(wlocked (wpc s') \<and> pushed evs = []) \<or> wpc s' = W_Sleep \<or> wpc s' = W_Done"
    proof (cases th)
      case Worker
      with Some x have "wstep eng s = Some (s', evs)" by (simp add: step_def)
      from worker_unlocks [OF l this] show ?thesis by blast
    next
      case Owner
      with Some x have "ostep s = Some (s', evs)" by (simp add: step_def)
      from locked_ostep [OF _ l this] sys show ?thesis by (simp add: inv_sys_def)
    next
      case (Caller i)
      with Some x have "cstep eng i s = Some (s', evs)" by (simp add: step_def)
      from cstepD [OF this] have i: "i < length (callers s)"
        and b: "cbody eng i (callers s ! i) s = Some (s', evs)" by simp_all
      from sys i have "cinv i s (c_pc (callers s ! i))" and "inv_lock s"
        by (simp_all add: inv_sys_def inv_callers_def)
      from locked_cbody [OF this(2,1) l b] show ?thesis by simp
    qed
    with Run Some x show ?thesis by (auto simp: act_def)
  qed
qed

lemma locked_until_sleep:
  assumes sys: "inv_sys s" and l: "wlocked (wpc s)"
  shows "(wlocked (wpc (fst (run eng later (s, tr))))
      \<and> pushed (snd (run eng later (s, tr))) = pushed tr)
    \<or> (\<exists>p. prefix p later \<and> (wpc (fst (run eng p (s, tr))) = W_Sleep
          \<or> wpc (fst (run eng p (s, tr))) = W_Done))"
proof (induction later rule: rev_induct)
  case Nil
  from l show ?case by simp
next
  case (snoc a later)
  let ?c = "run eng later (s, tr)"
  from snoc show ?case
  proof
    assume h: "wlocked (wpc (fst ?c)) \<and> pushed (snd ?c) = pushed tr"
    have "inv_sys (fst ?c)" using sys by (rule inv_sys_run)
    from locked_act [OF this, where tr = "snd ?c" and eng = eng and a = a] h
    have "(wlocked (wpc (fst (act eng ?c a))) \<and> pushed (snd (act eng ?c a)) = pushed tr)
      \<or> wpc (fst (act eng ?c a)) = W_Sleep \<or> wpc (fst (act eng ?c a)) = W_Done"
      by simp
    then show ?thesis
    proof (elim disjE)
      assume "wlocked (wpc (fst (act eng ?c a))) \<and> pushed (snd (act eng ?c a)) = pushed tr"
      then show ?thesis by simp
    next
      assume "wpc (fst (act eng ?c a)) = W_Sleep"
      then have "prefix (later @ [a]) (later @ [a]) \<and>
          (wpc (fst (run eng (later @ [a]) (s, tr))) = W_Sleep
            \<or> wpc (fst (run eng (later @ [a]) (s, tr))) = W_Done)"
        by simp
      then show ?thesis by blast
    next
      assume "wpc (fst (act eng ?c a)) = W_Done"
      then have "prefix (later @ [a]) (later @ [a]) \<and>
          (wpc (fst (run eng (later @ [a]) (s, tr))) = W_Sleep
            \<or> wpc (fst (run eng (later @ [a]) (s, tr))) = W_Done)"
        by simp
      then show ?thesis by blast
    qed
  next
    assume "\<exists>p. prefix p later \<and> (wpc (fst (run eng p (s, tr))) = W_Sleep
          \<or> wpc (fst (run eng p (s, tr))) = W_Done)"
    then obtain p where pp: "prefix p later" and
      w: "wpc (fst (run eng p (s, tr))) = W_Sleep \<or> wpc (fst (run eng p (s, tr))) = W_Done"
      by blast
    from pp have "prefix p (later @ [a])" by (rule prefix_prefix)
    with w show ?thesis by blast
  qed
qed

text \<open>
  C6, as the code has it.  Whatever the schedule: the worker holds \<^verbatim>\<open>mThreadMutex\<close>
  exactly at the statements from its first lock to its return other than the sleep in the
  condition wait and the taking of the lock after it, so it holds the lock while a task
  runs.  A statement of the worker gives the lock up only in two places: in the wait, which
  it enters with the queue empty and \<^verbatim>\<open>mRunning\<close> true, and at its return.  A caller at
  the \<^verbatim>\<open>lock_guard\<close> of a queued member function cannot move while the worker holds the
  lock, in particular while a task runs; and from a state where the worker holds the lock,
  however the schedule continues, nothing is pushed before the worker has gone to sleep in
  the wait or has returned.  A caller that got the lock is never blocked at its push, its
  unlock or its \<^verbatim>\<open>notify_one\<close>, and no caller that holds the lock is blocked.
\<close>

theorem C6_push_waits_for_queue_lock:
  assumes "s = state_of eng progs sched" and "i < length (callers s)"
  shows "(wlocked (wpc s) \<longrightarrow> mThreadMutex s = Some Worker)
    \<and> (executing (wpc s) \<longrightarrow> mThreadMutex s = Some Worker)
    \<and> (executing (wpc s) \<and> c_pc (callers s ! i) = C_Lock cl \<longrightarrow> step eng (Caller i) s = None)
    \<and> (pushing (c_pc (callers s ! i)) \<longrightarrow> step eng (Caller i) s \<noteq> None)
    \<and> (holds_queue (c_pc (callers s ! i)) \<longrightarrow> step eng (Caller i) s \<noteq> None)
    \<and> (wpc s = W_Sleep \<or> wpc s = W_Reacq \<longrightarrow> mThreadMutex s \<noteq> Some Worker)
    \<and> (mThreadMutex s = Some Worker) = wlocked (wpc s)
    \<and> (mThreadMutex s = Some Worker \<and> c_pc (callers s ! i) = C_Lock cl \<longrightarrow>
          step eng (Caller i) s = None)
    \<and> (\<forall>s' evs. step eng Worker s = Some (s', evs) \<and> mThreadMutex s = Some Worker
          \<and> mThreadMutex s' \<noteq> Some Worker \<longrightarrow>
          (wpc s = W_WaitPred \<and> mRunning s \<and> mFunctionCalls s = [] \<and> wpc s' = W_Sleep)
          \<or> (wpc s = W_Unlock \<and> wpc s' = W_Done))
    \<and> (wpc s = W_WaitPred \<longrightarrow> step eng Worker s =
          Some (if \<not> mRunning s \<or> mFunctionCalls s \<noteq> [] then s\<lparr>wpc := W_LoopCond\<rparr>
                else s\<lparr>mThreadMutex := None, wpc := W_Sleep\<rparr>, []))
    \<and> (mThreadMutex s = Some Worker \<longrightarrow>
          pushed (trace_of eng progs (sched @ later)) = pushed (trace_of eng progs sched)
          \<or> (\<exists>p. prefix p later \<and> (wpc (state_of eng progs (sched @ p)) = W_Sleep
                \<or> wpc (state_of eng progs (sched @ p)) = W_Done)))"
proof -
  have sys: "inv_sys s" using assms by (simp add: inv_sys_reach)
  have l2: "inv_lock2 s" using assms by (simp add: inv_lock2_reach)
  have a: "wlocked (wpc s) \<longrightarrow> mThreadMutex s = Some Worker"
    using sys by (simp add: inv_sys_def inv_lock_def)
  then have b: "executing (wpc s) \<longrightarrow> mThreadMutex s = Some Worker"
    using executing_wlocked by blast
  have c: "executing (wpc s) \<and> c_pc (callers s ! i) = C_Lock cl \<longrightarrow>
      step eng (Caller i) s = None"
    using b assms(2) by (auto simp: step_def cstep_def cbody_locked_out)
  have d: "pushing (c_pc (callers s ! i)) \<longrightarrow> step eng (Caller i) s \<noteq> None"
    using assms(2) cbody_pushing [of "callers s ! i" eng i s] by (simp add: step_def cstep_def)
  have e: "holds_queue (c_pc (callers s ! i)) \<longrightarrow> step eng (Caller i) s \<noteq> None"
    using assms(2) cbody_pushing [of "callers s ! i" eng i s] by (simp add: step_def cstep_def)
  have f: "wpc s = W_Sleep \<or> wpc s = W_Reacq \<longrightarrow> mThreadMutex s \<noteq> Some Worker"
    using l2 by (auto simp: inv_lock2_def)
  have g: "(mThreadMutex s = Some Worker) = wlocked (wpc s)"
    using a l2 by (auto simp: inv_lock2_def)
  have h: "mThreadMutex s = Some Worker \<and> c_pc (callers s ! i) = C_Lock cl \<longrightarrow>
          step eng (Caller i) s = None"
    using assms(2) by (auto simp: step_def cstep_def cbody_locked_out)
  have k: "\<forall>s' evs. step eng Worker s = Some (s', evs) \<and> mThreadMutex s = Some Worker
          \<and> mThreadMutex s' \<noteq> Some Worker \<longrightarrow>
          (wpc s = W_WaitPred \<and> mRunning s \<and> mFunctionCalls s = [] \<and> wpc s' = W_Sleep)
          \<or> (wpc s = W_Unlock \<and> wpc s' = W_Done)"
  proof (intro allI impI, elim conjE)
    fix s' evs
    assume st: "step eng Worker s = Some (s', evs)" and m: "mThreadMutex s = Some Worker"
      and m': "mThreadMutex s' \<noteq> Some Worker"
    from st have w: "wstep eng s = Some (s', evs)" by (simp add: step_def)
    from m g have l: "wlocked (wpc s)" by simp
    from sys w have "inv_lock s'" using inv_lock_wstep [of s eng s' evs] by (simp add: inv_sys_def)
    with m' have "\<not> wlocked (wpc s')" by (auto simp: inv_lock_def)
    with worker_unlocks [OF l w]
    show "(wpc s = W_WaitPred \<and> mRunning s \<and> mFunctionCalls s = [] \<and> wpc s' = W_Sleep)
          \<or> (wpc s = W_Unlock \<and> wpc s' = W_Done)"
      by blast
  qed
  have n: "wpc s = W_WaitPred \<longrightarrow> step eng Worker s =
          Some (if \<not> mRunning s \<or> mFunctionCalls s \<noteq> [] then s\<lparr>wpc := W_LoopCond\<rparr>
                else s\<lparr>mThreadMutex := None, wpc := W_Sleep\<rparr>, [])"
    using a by (auto simp: step_def wstep_def)
  have o: "mThreadMutex s = Some Worker \<longrightarrow>
          pushed (trace_of eng progs (sched @ later)) = pushed (trace_of eng progs sched)
          \<or> (\<exists>p. prefix p later \<and> (wpc (state_of eng progs (sched @ p)) = W_Sleep
                \<or> wpc (state_of eng progs (sched @ p)) = W_Done))"
  proof
    assume "mThreadMutex s = Some Worker"
    with g have l: "wlocked (wpc s)" by simp
    have r: "\<And>p. run eng (sched @ p) (init progs, []) =
        run eng p (s, trace_of eng progs sched)"
      using assms(1) by (simp add: run_append state_of_def trace_of_def)
    from locked_until_sleep [OF sys l, of eng later "trace_of eng progs sched"]
    show "pushed (trace_of eng progs (sched @ later)) = pushed (trace_of eng progs sched)
          \<or> (\<exists>p. prefix p later \<and> (wpc (state_of eng progs (sched @ p)) = W_Sleep
                \<or> wpc (state_of eng progs (sched @ p)) = W_Done))"
      by (auto simp: state_of_def trace_of_def r)
  qed
  from a b c d e f g h k n o show ?thesis by blast
qed

theorem C6_push_waits_for_queue_lock_witness:
  "mThreadMutex (state_of demo_engine demo_progs busy_sched) = Some Worker
   \<and> step demo_engine (Caller 0) (state_of demo_engine demo_progs busy_sched) = None
   \<and> pushed (trace_of demo_engine demo_progs (busy_sched @ unblock_sched)) \<noteq>
       pushed (trace_of demo_engine demo_progs busy_sched)
   \<and> (\<exists>p. prefix p unblock_sched
        \<and> (wpc (state_of demo_engine demo_progs (busy_sched @ p)) = W_Sleep
          \<or> wpc (state_of demo_engine demo_progs (busy_sched @ p)) = W_Done))"
proof -
  have a: "executing (wpc (state_of demo_engine demo_progs busy_sched))"
    by code_simp
  have b: "c_pc (callers (state_of demo_engine demo_progs busy_sched) ! 0) =
      C_Lock (UseProtectedContext True)"
    by code_simp
  have c: "0 < length (callers (state_of demo_engine demo_progs busy_sched))"
    by code_simp
  have d: "pushed (trace_of demo_engine demo_progs (busy_sched @ unblock_sched)) \<noteq>
       pushed (trace_of demo_engine demo_progs busy_sched)"
    by code_simp
  note t = C6_push_waits_for_queue_lock [OF refl c, of "UseProtectedContext True" unblock_sched]
  from t a have m: "mThreadMutex (state_of demo_engine demo_progs busy_sched) = Some Worker"
    by blast
  from t a b have n: "step demo_engine (Caller 0)
      (state_of demo_engine demo_progs busy_sched) = None"
    by blast
  from t m d have "\<exists>p. prefix p unblock_sched
        \<and> (wpc (state_of demo_engine demo_progs (busy_sched @ p)) = W_Sleep
          \<or> wpc (state_of demo_engine demo_progs (busy_sched @ p)) = W_Done)"
    by blast
  with m n d show ?thesis by blast
qed

text \<open>
  The claim as the specification words it fails: here a task is running (the worker is
  inside the lambda of \<^verbatim>\<open>primeCache\<close>) and holds the queue lock, and the caller that
  wants to push cannot take the lock, before the engine call and after it.
\<close>

theorem C6_push_blocked_during_task_counterexample:
  "wpc (state_of demo_engine demo_progs busy_sched) =
     W_Invoke \<lparr>t_call = PrimeCache, t_origin = (1, 0), t_sync = False\<rparr>
   \<and> c_pc (callers (state_of demo_engine demo_progs busy_sched) ! 0) =
       C_Lock (UseProtectedContext True)
   \<and> mThreadMutex (state_of demo_engine demo_progs busy_sched) = Some Worker
   \<and> step demo_engine (Caller 0) (state_of demo_engine demo_progs busy_sched) = None
   \<and> wpc (state_of demo_engine demo_progs (busy_sched @ [Run Worker])) =
       W_Finish \<lparr>t_call = PrimeCache, t_origin = (1, 0), t_sync = False\<rparr> VVoid
   \<and> step demo_engine (Caller 0)
        (state_of demo_engine demo_progs (busy_sched @ [Run Worker])) = None"
  by code_simp

subsection \<open>The direct reads\<close>

lemma cbody_accessor_frame:
  "accessor_pc (c_pc c) \<Longrightarrow> cbody eng i c s = Some (s', evs) \<Longrightarrow>
    mFunctionCalls s' = mFunctionCalls s \<and> pushed evs = []"
  by (cases "c_pc c"; clarsimp simp: cbody_def set_caller_def
        split: if_splits list.splits option.splits)

lemma cbody_read:
  "c_pc c = A_Read a \<Longrightarrow> a \<noteq> IsProtected \<Longrightarrow> mRenderEngine s = Some r \<Longrightarrow>
    cbody eng i c s =
      Some (set_caller i (finish_call c) s, [Returned i (c_count c) (Direct a) (query eng a r)])"
  by (simp add: cbody_def)

lemma wake_caller_punlock [simp]: "(c_pc (wake_caller c) = P_Unlock v) = (c_pc c = P_Unlock v)"
  by (cases "c_pc c"; simp add: wake_caller_def)

lemma wstep_keeps_engine:
  "inv_lock s \<Longrightarrow> inv_init s \<Longrightarrow> mThreadMutex s = Some (Caller i) \<Longrightarrow> mIsInitialized s \<Longrightarrow>
    wstep eng s = Some (s', evs) \<Longrightarrow> mRenderEngine s' = mRenderEngine s"
  by (cases "wpc s"; clarsimp simp: inv_lock_def inv_init_def wstep_def
        split: if_splits list.splits option.splits)

lemma ostep_keeps_engine: "ostep s = Some (s', evs) \<Longrightarrow> mRenderEngine s' = mRenderEngine s"
  by (cases "opc s"; clarsimp simp: ostep_def split: if_splits)

lemma cbody_keeps_engine:
  "cbody eng i c s = Some (s', evs) \<Longrightarrow> mRenderEngine s' = mRenderEngine s"
  by (cases "c_pc c"; clarsimp simp: cbody_def set_caller_def
        split: if_splits list.splits option.splits)

lemma cbody_reads_protected:
  "cbody eng i c s = Some (s', evs) \<Longrightarrow> i < length (callers s) \<Longrightarrow>
    c_pc (callers s' ! i) = P_Unlock v \<Longrightarrow>
    \<exists>r. mRenderEngine s = Some r \<and> v = query eng IsProtected r"
  by (cases "c_pc c"; clarsimp simp: cbody_def set_caller_def finish_call_def entry_def
        split: if_splits list.splits option.splits pubop.splits)

lemma inv_prot_wstep:
  assumes sys: "inv_sys s" and p: "inv_prot eng s" and st: "wstep eng s = Some (s', evs)"
  shows "inv_prot eng s'"
  unfolding inv_prot_def
proof (intro allI impI)
  fix i v
  assume i': "i < length (callers s')" and pc': "c_pc (callers s' ! i) = P_Unlock v"
  from wstep_callers [OF st] i' have i: "i < length (callers s)" by (simp split: if_splits)
  from wstep_callers [OF st] i pc' have pc: "c_pc (callers s ! i) = P_Unlock v"
    by (simp split: if_splits)
  from sys i have "cinv i s (c_pc (callers s ! i))" by (simp add: inv_sys_def inv_callers_def)
  with pc have m: "mThreadMutex s = Some (Caller i)" and f: "mIsInitialized s"
    by (simp_all add: cinv_def)
  from sys have "inv_lock s" "inv_init s" by (simp_all add: inv_sys_def)
  from wstep_keeps_engine [OF this m f st] p i pc
  show "\<exists>r. mRenderEngine s' = Some r \<and> v = query eng IsProtected r"
    by (simp add: inv_prot_def)
qed

lemma inv_prot_ostep:
  assumes p: "inv_prot eng s" and st: "ostep s = Some (s', evs)"
  shows "inv_prot eng s'"
  using p ostep_callers [OF st] ostep_keeps_engine [OF st] by (simp add: inv_prot_def)

lemma inv_prot_cbody:
  assumes p: "inv_prot eng s" and j: "j < length (callers s)"
    and st: "cbody eng j (callers s ! j) s = Some (s', evs)"
  shows "inv_prot eng s'"
  unfolding inv_prot_def
proof (intro allI impI)
  fix i v
  assume i': "i < length (callers s')" and pc': "c_pc (callers s' ! i) = P_Unlock v"
  note fr = cbody_callers [OF st]
  note ke = cbody_keeps_engine [OF st]
  from fr i' have i: "i < length (callers s)" by simp
  show "\<exists>r. mRenderEngine s' = Some r \<and> v = query eng IsProtected r"
  proof (cases "i = j")
    case True
    with cbody_reads_protected [OF st j, of v] pc' ke show ?thesis by simp
  next
    case False
    with fr pc' have "c_pc (callers s ! i) = P_Unlock v" by simp
    with p i ke show ?thesis by (simp add: inv_prot_def)
  qed
qed

lemma inv_prot_wake: "inv_prot eng s \<Longrightarrow> inv_prot eng (wake th s)"
  by (cases th) (auto simp: inv_prot_def wake_def set_caller_def nth_list_update)

lemma inv_prot_reach: "inv_prot eng (state_of eng progs sched)"
proof -
  let ?Q = "\<lambda>c. inv_prot eng (fst c)"
  have "inv_sys (fst (run eng sched (init progs, []))) \<and> ?Q (run eng sched (init progs, []))"
  proof (rule reach_invariant [where Q = ?Q])
    show "?Q (init progs, [])" by (simp add: inv_prot_def init_def)
  qed (auto intro: inv_prot_wstep inv_prot_ostep inv_prot_cbody inv_prot_wake)
  then show ?thesis by (simp add: state_of_def)
qed

lemma cbody_read_protected:
  "c_pc c = A_Read IsProtected \<Longrightarrow> mRenderEngine s = Some r \<Longrightarrow>
    cbody eng i c s = Some (set_caller i (c\<lparr>c_pc := P_Unlock (query eng IsProtected r)\<rparr>) s, [])"
  by (simp add: cbody_def)

lemma cbody_return_protected:
  "c_pc c = P_Unlock v \<Longrightarrow>
    cbody eng i c s =
      Some (set_caller i (finish_call c) (s\<lparr>mThreadMutex := release (Caller i) (mThreadMutex s)\<rparr>),
            [Returned i (c_count c) (Direct IsProtected) v])"
  by (simp add: cbody_def)

text \<open>
  C8.  Whatever the schedule and the caller: a read-only accessor starts with
  \<^verbatim>\<open>waitUntilInitialized\<close>; none of its statements changes the queue or pushes a task;
  when the caller is at the dereference of \<^verbatim>\<open>mRenderEngine\<close> the flag
  \<^verbatim>\<open>mIsInitialized\<close> is set; the dereference is a statement of the calling thread that
  takes what the engine's const member function gives on the engine as it is, and for every
  accessor but \<^verbatim>\<open>isProtected\<close> returns it at once.  In \<^verbatim>\<open>isProtected\<close> the caller
  holds \<^verbatim>\<open>mThreadMutex\<close> at the dereference, so that the worker is not running a task then;
  the dereference takes what the engine's \<^verbatim>\<open>isProtected\<close> gives; until the caller has
  released the lock the value it took is still what the engine gives, and that value is
  what the call returns.
\<close>

theorem C8_direct_read_accessors:
  assumes "s = state_of eng progs sched" and "i < length (callers s)"
  shows "entry (Direct a) = A_Lock a
    \<and> (accessor_pc (c_pc (callers s ! i)) \<longrightarrow>
         (\<forall>s' evs. step eng (Caller i) s = Some (s', evs) \<longrightarrow>
            mFunctionCalls s' = mFunctionCalls s \<and> pushed evs = []))
    \<and> (c_pc (callers s ! i) = A_Read a \<longrightarrow> mIsInitialized s)
    \<and> (c_pc (callers s ! i) = A_Read a \<and> a \<noteq> IsProtected \<and> mRenderEngine s = Some r \<longrightarrow>
         step eng (Caller i) s =
           Some (set_caller i (finish_call (callers s ! i)) s,
                 [Returned i (c_count (callers s ! i)) (Direct a) (query eng a r)]))
    \<and> (c_pc (callers s ! i) = A_Read IsProtected \<longrightarrow>
         mThreadMutex s = Some (Caller i) \<and> \<not> executing (wpc s))
    \<and> (c_pc (callers s ! i) = A_Read IsProtected \<and> mRenderEngine s = Some r \<longrightarrow>
         step eng (Caller i) s =
           Some (set_caller i ((callers s ! i)\<lparr>c_pc := P_Unlock (query eng IsProtected r)\<rparr>) s,
                 []))
    \<and> (c_pc (callers s ! i) = P_Unlock v \<longrightarrow>
         mThreadMutex s = Some (Caller i) \<and> \<not> executing (wpc s)
         \<and> (\<exists>r'. mRenderEngine s = Some r' \<and> v = query eng IsProtected r')
         \<and> step eng (Caller i) s =
             Some (set_caller i (finish_call (callers s ! i))
                     (s\<lparr>mThreadMutex := release (Caller i) (mThreadMutex s)\<rparr>),
                   [Returned i (c_count (callers s ! i)) (Direct IsProtected) v]))"
proof -
  have sys: "inv_sys s" using assms by (simp add: inv_sys_reach)
  then have ci: "cinv i s (c_pc (callers s ! i))"
    using assms(2) by (simp add: inv_sys_def inv_callers_def)
  have pr: "inv_prot eng s" using assms(1) by (simp add: inv_prot_reach)
  have a: "entry (Direct a) = A_Lock a" by (simp add: entry_def)
  have b: "accessor_pc (c_pc (callers s ! i)) \<longrightarrow>
         (\<forall>s' evs. step eng (Caller i) s = Some (s', evs) \<longrightarrow>
            mFunctionCalls s' = mFunctionCalls s \<and> pushed evs = [])"
    using assms(2) cbody_accessor_frame [of "callers s ! i" eng i s]
    by (simp add: step_def cstep_def)
  have c: "c_pc (callers s ! i) = A_Read a \<longrightarrow> mIsInitialized s"
    using ci by (auto simp: cinv_def)
  have d: "c_pc (callers s ! i) = A_Read a \<and> a \<noteq> IsProtected \<and> mRenderEngine s = Some r \<longrightarrow>
         step eng (Caller i) s =
           Some (set_caller i (finish_call (callers s ! i)) s,
                 [Returned i (c_count (callers s ! i)) (Direct a) (query eng a r)])"
    using assms(2) by (simp add: step_def cstep_def cbody_read)
  have e: "c_pc (callers s ! i) = A_Read IsProtected \<longrightarrow>
         mThreadMutex s = Some (Caller i) \<and> \<not> executing (wpc s)"
    using ci sys executing_wlocked [of "wpc s"] by (auto simp: cinv_def inv_sys_def inv_lock_def)
  have f: "c_pc (callers s ! i) = A_Read IsProtected \<and> mRenderEngine s = Some r \<longrightarrow>
         step eng (Caller i) s =
           Some (set_caller i ((callers s ! i)\<lparr>c_pc := P_Unlock (query eng IsProtected r)\<rparr>) s,
                 [])"
    using assms(2) by (simp add: step_def cstep_def cbody_read_protected)
  have g1: "c_pc (callers s ! i) = P_Unlock v \<longrightarrow>
         mThreadMutex s = Some (Caller i) \<and> \<not> executing (wpc s)"
    using ci sys executing_wlocked [of "wpc s"] by (auto simp: cinv_def inv_sys_def inv_lock_def)
  have g2: "c_pc (callers s ! i) = P_Unlock v \<longrightarrow>
         (\<exists>r'. mRenderEngine s = Some r' \<and> v = query eng IsProtected r')"
    using pr assms(2) by (simp add: inv_prot_def)
  have g3: "c_pc (callers s ! i) = P_Unlock v \<longrightarrow>
         step eng (Caller i) s =
             Some (set_caller i (finish_call (callers s ! i))
                     (s\<lparr>mThreadMutex := release (Caller i) (mThreadMutex s)\<rparr>),
                   [Returned i (c_count (callers s ! i)) (Direct IsProtected) v])"
    using assms(2) by (simp add: step_def cstep_def cbody_return_protected)
  from a b c d e f g1 g2 g3 show ?thesis by blast
qed

theorem C8_direct_read_accessors_witness:
  "c_pc (callers (state_of demo_engine demo_progs read_sched) ! 0) = A_Read IsProtected
   \<and> mIsInitialized (state_of demo_engine demo_progs read_sched)
   \<and> mThreadMutex (state_of demo_engine demo_progs read_sched) = Some (Caller 0)
   \<and> \<not> executing (wpc (state_of demo_engine demo_progs read_sched))
   \<and> c_pc (callers (state_of demo_engine demo_progs (read_sched @ [Run (Caller 0)])) ! 0) =
       P_Unlock (VBool True)
   \<and> (\<exists>r. mRenderEngine (state_of demo_engine demo_progs (read_sched @ [Run (Caller 0)])) =
         Some r \<and> VBool True = query demo_engine IsProtected r)"
proof -
  have a: "c_pc (callers (state_of demo_engine demo_progs read_sched) ! 0) = A_Read IsProtected"
    by code_simp
  have c: "0 < length (callers (state_of demo_engine demo_progs read_sched))"
    by code_simp
  have a': "c_pc (callers (state_of demo_engine demo_progs (read_sched @ [Run (Caller 0)])) ! 0)
      = P_Unlock (VBool True)"
    by code_simp
  have c': "0 < length (callers (state_of demo_engine demo_progs (read_sched @ [Run (Caller 0)])))"
    by code_simp
  note t = C8_direct_read_accessors [OF refl c, of IsProtected]
  note t' = C8_direct_read_accessors [OF refl c', where v = "VBool True"]
  from t a have 1: "mIsInitialized (state_of demo_engine demo_progs read_sched)
    \<and> mThreadMutex (state_of demo_engine demo_progs read_sched) = Some (Caller 0)
    \<and> \<not> executing (wpc (state_of demo_engine demo_progs read_sched))"
    by blast
  from t' a' have 2: "\<exists>r. mRenderEngine
         (state_of demo_engine demo_progs (read_sched @ [Run (Caller 0)])) =
         Some r \<and> VBool True = query demo_engine IsProtected r"
    by blast
  from a a' 1 2 show ?thesis by blast
qed

subsection \<open>After the running flag is cleared\<close>

lemma after_clear_wstep:
  "inv_run s \<Longrightarrow> \<not> mRunning s \<Longrightarrow> wstep eng s = Some (s', evs) \<Longrightarrow>
    \<not> mRunning s' \<and> invoked evs = [] \<and> promises s' = promises s
      \<and> mFunctionCalls s' = mFunctionCalls s"
  by (cases "wpc s"; clarsimp simp: inv_run_def wstep_def
        split: if_splits list.splits option.splits)

lemma after_clear_ostep:
  "\<not> mRunning s \<Longrightarrow> ostep s = Some (s', evs) \<Longrightarrow>
    \<not> mRunning s' \<and> invoked evs = [] \<and> promises s' = promises s
      \<and> mFunctionCalls s' = mFunctionCalls s"
  by (cases "opc s"; clarsimp simp: ostep_def split: if_splits)

lemma after_clear_cbody:
  "\<not> mRunning s \<Longrightarrow> cbody eng i c s = Some (s', evs) \<Longrightarrow>
    \<not> mRunning s' \<and> invoked evs = [] \<and> promises s' = promises s
      \<and> prefix (mFunctionCalls s) (mFunctionCalls s')"
  by (cases "c_pc c"; clarsimp simp: cbody_def set_caller_def
        split: if_splits list.splits option.splits)

lemma after_clear_wake:
  "mRunning (wake th s) = mRunning s \<and> promises (wake th s) = promises s
    \<and> mFunctionCalls (wake th s) = mFunctionCalls s"
  by (cases th; simp add: wake_def set_caller_def)

lemma after_clear_run:
  assumes "inv_sys (s :: 'a state)" and "\<not> mRunning s"
  shows "inv_sys (fst (run eng later (s, tr)))
    \<and> \<not> mRunning (fst (run eng later (s, tr)))
    \<and> invoked (snd (run eng later (s, tr))) = invoked tr
    \<and> promises (fst (run eng later (s, tr))) = promises s
    \<and> prefix (mFunctionCalls s) (mFunctionCalls (fst (run eng later (s, tr))))"
proof -
  let ?P = "\<lambda>c :: 'a config. inv_sys (fst c) \<and> \<not> mRunning (fst c)
    \<and> invoked (snd c) = invoked tr
    \<and> promises (fst c) = promises s \<and> prefix (mFunctionCalls s) (mFunctionCalls (fst c))"
  have "?P (run eng later (s, tr))"
  proof (rule run_preserves [where P = ?P])
    show "?P (s, tr)" using assms by simp
  next
    fix u tr' u' evs
    assume "?P (u, tr')" "wstep eng u = Some (u', evs)"
    then show "?P (u', tr' @ evs)"
      using after_clear_wstep [of u eng u' evs] inv_sys_wstep [of u eng u' evs]
      by (simp add: inv_sys_def)
  next
    fix u tr' u' evs
    assume "?P (u, tr')" "ostep u = Some (u', evs)"
    then show "?P (u', tr' @ evs)"
      using after_clear_ostep [of u u' evs] inv_sys_ostep [of u u' evs] by simp
  next
    fix u tr' i u' evs
    assume "?P (u, tr')" "i < length (callers u)"
      "cbody eng i (callers u ! i) u = Some (u', evs)"
    then show "?P (u', tr' @ evs)"
      using after_clear_cbody [of u eng i "callers u ! i" u' evs]
        inv_sys_cbody [of u i eng u' evs]
      by (auto intro: prefix_order.trans)
  next
    fix u tr' th
    assume "?P (u, tr')"
    then show "?P (wake th u, tr')"
      using after_clear_wake [of th u] inv_sys_wake [of u th] by simp
  qed
  then show ?thesis by simp
qed

lemma wstep_exit_loop:
  "\<not> mRunning s \<Longrightarrow> wpc s = W_WaitPred \<Longrightarrow> wstep eng s = Some (s\<lparr>wpc := W_LoopCond\<rparr>, [])"
  "\<not> mRunning s \<Longrightarrow> wpc s = W_LoopCond \<Longrightarrow> wstep eng s = Some (s\<lparr>wpc := W_Reset\<rparr>, [])"
  by (simp_all add: wstep_def)

text \<open>
  C10.  If \<^verbatim>\<open>mRunning\<close> is false after a schedule, then the worker is not between the
  test of the queue and the end of a task, and however the schedule continues: the flag
  stays false, the worker never is there again, no further task is run, no further promise
  is set, and the queue keeps every task it held (new pushes go behind them).  The worker
  passes the wait predicate and leaves the loop at its condition although the queue may
  hold tasks.
\<close>

theorem C10_pending_tasks_dropped:
  assumes "s = state_of eng progs sched" and "\<not> mRunning s"
    and "s' = state_of eng progs (sched @ later)"
  shows "\<not> in_body (wpc s) \<and> \<not> in_body (wpc s') \<and> \<not> mRunning s'
    \<and> invoked (trace_of eng progs (sched @ later)) = invoked (trace_of eng progs sched)
    \<and> promises s' = promises s
    \<and> prefix (mFunctionCalls s) (mFunctionCalls s')
    \<and> (wpc s' = W_WaitPred \<longrightarrow> step eng Worker s' = Some (s'\<lparr>wpc := W_LoopCond\<rparr>, []))
    \<and> (wpc s' = W_LoopCond \<longrightarrow> step eng Worker s' = Some (s'\<lparr>wpc := W_Reset\<rparr>, []))"
proof -
  have sys: "inv_sys s" using assms by (simp add: inv_sys_reach)
  have r: "run eng (sched @ later) (init progs, []) =
      run eng later (s, trace_of eng progs sched)"
    using assms(1) by (simp add: run_append state_of_def trace_of_def)
  note a = after_clear_run [OF sys assms(2), of eng later "trace_of eng progs sched"]
  have s': "s' = fst (run eng later (s, trace_of eng progs sched))"
    using assms(3) r by (simp add: state_of_def)
  have t': "trace_of eng progs (sched @ later) = snd (run eng later (s, trace_of eng progs sched))"
    using r by (simp add: trace_of_def)
  have b: "\<not> in_body (wpc s)" using sys assms(2) by (auto simp: inv_sys_def inv_run_def)
  have c: "\<not> in_body (wpc s')" using a s' by (auto simp: inv_sys_def inv_run_def)
  have d: "\<not> mRunning s'" using a s' by simp
  from a b c d s' t' wstep_exit_loop [of s' eng] show ?thesis
    by (simp add: step_def)
qed

theorem C10_pending_tasks_dropped_witness:
  "invoked (trace_of demo_engine demo_progs (pending_sched @ rest_sched)) = []
   \<and> promises (state_of demo_engine demo_progs (pending_sched @ rest_sched)) = []
   \<and> prefix [\<lparr>t_call = UseProtectedContext True, t_origin = (0, 0), t_sync = True\<rparr>]
        (mFunctionCalls (state_of demo_engine demo_progs (pending_sched @ rest_sched)))
   \<and> opc (state_of demo_engine demo_progs (pending_sched @ rest_sched)) = D_Returned
   \<and> c_pc (callers (state_of demo_engine demo_progs (pending_sched @ rest_sched)) ! 0) =
       C_Get (UseProtectedContext True)"
proof -
  have a: "\<not> mRunning (state_of demo_engine demo_progs pending_sched)"
    by code_simp
  have b: "invoked (trace_of demo_engine demo_progs pending_sched) = []"
    by code_simp
  have c: "promises (state_of demo_engine demo_progs pending_sched) = []"
    by code_simp
  have d: "mFunctionCalls (state_of demo_engine demo_progs pending_sched) =
      [\<lparr>t_call = UseProtectedContext True, t_origin = (0, 0), t_sync = True\<rparr>]"
    by code_simp
  have e: "opc (state_of demo_engine demo_progs (pending_sched @ rest_sched)) = D_Returned"
    by code_simp
  have f: "c_pc (callers (state_of demo_engine demo_progs (pending_sched @ rest_sched)) ! 0) =
       C_Get (UseProtectedContext True)"
    by code_simp
  from C10_pending_tasks_dropped [OF refl a refl, of rest_sched] b c d e f
  show ?thesis by simp
qed

subsection \<open>Which invocation a task belongs to\<close>

lemma after_push_wake [simp]: "after_push (c_pc (wake_caller c)) cl = after_push (c_pc c) cl"
  by (cases "c_pc c"; simp add: wake_caller_def)

lemma orig_pc_wake [simp]: "orig_pc (wake_caller c) k cl = orig_pc c k cl"
  by (simp add: orig_pc_def)

lemma orig_ok_wake_all [simp]: "orig_ok (map wake_caller cs) t = orig_ok cs t"
  by (auto simp: orig_ok_def)

lemma orig_ok_wake_one:
  "orig_ok cs t \<Longrightarrow> j < length cs \<Longrightarrow> orig_ok (cs[j := wake_caller (cs ! j)]) t"
  by (auto simp: orig_ok_def nth_list_update)

lemma wstep_pushed: "wstep eng s = Some (s', evs) \<Longrightarrow> pushed evs = []"
  by (cases "wpc s"; clarsimp simp: wstep_def split: if_splits list.splits option.splits)

lemma ostep_pushed: "ostep s = Some (s', evs) \<Longrightarrow> pushed evs = []"
  by (cases "opc s"; clarsimp simp: ostep_def split: if_splits)

lemma inv_orig_wstep:
  assumes "inv_orig (s, tr)" and st: "wstep eng s = Some (s', evs)"
  shows "inv_orig (s', tr @ evs)"
  using assms wstep_callers [OF st] wstep_pushed [OF st]
  by (auto simp: inv_orig_def split: if_splits)

lemma inv_orig_ostep:
  assumes "inv_orig (s, tr)" and st: "ostep s = Some (s', evs)"
  shows "inv_orig (s', tr @ evs)"
  using assms ostep_callers [OF st] ostep_pushed [OF st]
  by (auto simp: inv_orig_def)

lemma orig_pc_cbody:
  "orig_pc c k cl \<Longrightarrow> cbody eng j c s = Some (s', evs) \<Longrightarrow> j < length (callers s) \<Longrightarrow>
    orig_pc (callers s' ! j) k cl"
  by (cases "c_pc c"; clarsimp simp: orig_pc_def cbody_def set_caller_def finish_call_def
        entry_def split: if_splits list.splits option.splits pubop.splits)
     auto

lemma cbody_new_task:
  "cbody eng j c s = Some (s', evs) \<Longrightarrow> j < length (callers s) \<Longrightarrow> t \<in> set (pushed evs) \<Longrightarrow>
    t_sync t = is_sync (t_call t) \<and> fst (t_origin t) = j
      \<and> orig_pc (callers s' ! j) (snd (t_origin t)) (t_call t)"
  by (cases "c_pc c"; clarsimp simp: orig_pc_def cbody_def set_caller_def finish_call_def
        split: if_splits list.splits option.splits)

lemma inv_orig_cbody:
  assumes inv: "inv_orig (s, tr)" and j: "j < length (callers s)"
    and st: "cbody eng j (callers s ! j) s = Some (s', evs)"
  shows "inv_orig (s', tr @ evs)"
  unfolding inv_orig_def
proof
  fix t
  assume "t \<in> set (pushed (snd (s', tr @ evs)))"
  then have t: "t \<in> set (pushed tr) \<or> t \<in> set (pushed evs)" by auto
  note fr = cbody_callers [OF st]
  show "orig_ok (callers (fst (s', tr @ evs))) t"
  proof (cases "t \<in> set (pushed evs)")
    case True
    from cbody_new_task [OF st j True] j fr show ?thesis
      by (simp add: orig_ok_def)
  next
    case False
    with t inv have ok: "orig_ok (callers s) t" by (auto simp: inv_orig_def)
    show ?thesis
    proof (cases "fst (t_origin t) = j")
      case True
      with ok orig_pc_cbody [OF _ st j, of "snd (t_origin t)" "t_call t"] fr show ?thesis
        by (simp add: orig_ok_def)
    next
      case False
      with ok fr show ?thesis by (simp add: orig_ok_def)
    qed
  qed
qed

lemma inv_orig_wake: "inv_orig (s, tr) \<Longrightarrow> inv_orig (wake th s, tr)"
  by (cases th) (auto simp: inv_orig_def wake_def set_caller_def orig_ok_wake_one)

subsection \<open>What a promise holds\<close>

lemma delivered_mono: "delivered tr og v \<Longrightarrow> delivered (tr @ evs) og v"
  by (auto simp: delivered_def)

lemma deliveredI: "delivered (tr @ [Finished t v]) (t_origin t) v"
  by (auto simp: delivered_def)

lemma computed_mono: "computed eng tr t v \<Longrightarrow> computed eng (tr @ evs) t v"
  by (auto simp: computed_def)

lemma computedI: "computed eng (tr @ [Invoked t r (snd (invoke eng (t_call t) r))]) t
    (snd (invoke eng (t_call t) r))"
  by (auto simp: computed_def)

lemma notify_worker_finish [simp]: "(notify_worker p = W_Finish t v) = (p = W_Finish t v)"
  by (cases p; simp add: notify_worker_def)

lemma inv_prom_wstep:
  "inv_prom eng (s, tr) \<Longrightarrow> wstep eng s = Some (s', evs) \<Longrightarrow> inv_prom eng (s', tr @ evs)"
  by (cases "wpc s"; clarsimp simp: inv_prom_def wstep_def
        split: if_splits list.splits option.splits)
     (auto intro: computed_mono computedI delivered_mono deliveredI)

lemma inv_prom_ostep:
  "inv_prom eng (s, tr) \<Longrightarrow> ostep s = Some (s', evs) \<Longrightarrow> inv_prom eng (s', tr @ evs)"
  by (cases "opc s"; clarsimp simp: inv_prom_def ostep_def split: if_splits)
     (auto intro: computed_mono delivered_mono)

lemma inv_prom_cbody:
  "inv_prom eng (s, tr) \<Longrightarrow> cbody eng i c s = Some (s', evs) \<Longrightarrow> inv_prom eng (s', tr @ evs)"
  by (cases "c_pc c"; clarsimp simp: inv_prom_def cbody_def set_caller_def
        split: if_splits list.splits option.splits)
     (auto intro: computed_mono delivered_mono)

lemma inv_prom_wake: "inv_prom eng (s, tr) \<Longrightarrow> inv_prom eng (wake th s, tr)"
  by (cases th; simp add: inv_prom_def wake_def set_caller_def)

lemma invoked_mem: "Invoked t r v \<in> set tr \<Longrightarrow> t \<in> set (invoked tr)"
  by (induction tr rule: invoked.induct) auto

subsection \<open>What a blocking call returns\<close>

lemma get_delivers:
  assumes prom: "inv_prom eng (s, tr)" and orig: "inv_orig (s, tr)" and fifo: "inv_fifo (s, tr)"
    and pc: "c_pc (callers s ! i) = C_Get cl" and sy: "is_sync cl"
    and get: "map_of (promises s) (i, c_count (callers s ! i)) = Some v"
  shows "(\<exists>x\<in>set tr. delivers x (Returned i (c_count (callers s ! i)) (Queued cl) v))
    \<and> (\<exists>x\<in>set tr. computes eng x (Returned i (c_count (callers s ! i)) (Queued cl) v))"
proof -
  let ?k = "c_count (callers s ! i)"
  from get have "((i, ?k), v) \<in> set (promises s)" by (rule map_of_SomeD)
  with prom have "delivered tr (i, ?k) v"
    unfolding inv_prom_def fst_conv snd_conv by blast
  then obtain t where t: "t_origin t = (i, ?k)" and fin: "Finished t v \<in> set tr"
    by (auto simp: delivered_def)
  from prom fin have "computed eng tr t v" by (simp add: inv_prom_def)
  then obtain r where r: "Invoked t r v \<in> set tr" and v: "v = snd (invoke eng (t_call t) r)"
    by (auto simp: computed_def)
  from invoked_mem [OF r] fifo have "t \<in> set (pushed tr)" by (simp add: inv_fifo_def)
  with orig have ok: "orig_ok (callers s) t" by (simp add: inv_orig_def)
  with t pc have cl: "t_call t = cl" by (simp add: orig_ok_def orig_pc_def)
  with ok sy have "t_sync t" by (simp add: orig_ok_def)
  with t cl fin have "delivers (Finished t v) (Returned i ?k (Queued cl) v)" by simp
  moreover from t cl v have "computes eng (Invoked t r v) (Returned i ?k (Queued cl) v)" by simp
  ultimately show ?thesis using fin r by blast
qed

lemma inv_ret_wstep:
  "inv_ret eng (s, tr) \<Longrightarrow> wstep eng s = Some (s', evs) \<Longrightarrow> inv_ret eng (s', tr @ evs)"
  by (cases "wpc s"; clarsimp simp: inv_ret_def wstep_def
        split: if_splits list.splits option.splits)

lemma inv_ret_ostep:
  "inv_ret eng (s, tr) \<Longrightarrow> ostep s = Some (s', evs) \<Longrightarrow> inv_ret eng (s', tr @ evs)"
  by (cases "opc s"; clarsimp simp: inv_ret_def ostep_def split: if_splits)

lemma inv_ret_cbody:
  assumes "inv_ret eng (s, tr)"
    and key: "\<And>cl v. c_pc c = C_Get cl \<Longrightarrow> is_sync cl \<Longrightarrow>
      map_of (promises s) (i, c_count c) = Some v \<Longrightarrow>
      (\<exists>x\<in>set tr. delivers x (Returned i (c_count c) (Queued cl) v))
      \<and> (\<exists>x\<in>set tr. computes eng x (Returned i (c_count c) (Queued cl) v))"
    and "cbody eng i c s = Some (s', evs)"
  shows "inv_ret eng (s', tr @ evs)"
  using assms(1,3)
  by (cases "c_pc c"; clarsimp simp: inv_ret_def cbody_def set_caller_def
        split: if_splits list.splits option.splits)
     (use key in blast)+

lemma inv_ret_reach:
  "inv_ret eng (run eng sched (init progs, []))"
proof -
  let ?Q = "\<lambda>c. inv_fifo c \<and> inv_orig c \<and> inv_prom eng c \<and> inv_ret eng c"
  have "inv_sys (fst (run eng sched (init progs, []))) \<and> ?Q (run eng sched (init progs, []))"
  proof (rule reach_invariant [where Q = ?Q])
    show "?Q (init progs, [])"
      by (simp add: inv_fifo_def inv_orig_def inv_prom_def inv_ret_def init_def)
  next
    fix s tr s' evs
    assume "inv_sys s" "?Q (s, tr)" "wstep eng s = Some (s', evs)"
    then show "?Q (s', tr @ evs)"
      by (auto simp: inv_sys_def intro: inv_fifo_wstep inv_orig_wstep inv_prom_wstep
            inv_ret_wstep)
  next
    fix s tr s' evs
    assume "inv_sys s" "?Q (s, tr)" "ostep s = Some (s', evs)"
    then show "?Q (s', tr @ evs)"
      by (auto simp: inv_sys_def intro: inv_fifo_ostep inv_orig_ostep inv_prom_ostep
            inv_ret_ostep)
  next
    fix s tr i s' evs
    assume a: "inv_sys s" "?Q (s, tr)" "i < length (callers s)"
      "cbody eng i (callers s ! i) s = Some (s', evs)"
    then have "inv_ret eng (s', tr @ evs)"
      using get_delivers [of eng s tr i]
      by (intro inv_ret_cbody [of eng s tr "callers s ! i" i s' evs]) auto
    with a show "?Q (s', tr @ evs)"
      by (auto intro: inv_fifo_cbody inv_orig_cbody inv_prom_cbody)
  next
    fix s tr th
    assume "inv_sys s" "?Q (s, tr)"
    then show "?Q (wake th s, tr)"
      by (auto simp: inv_ret_def intro: inv_fifo_wake inv_orig_wake inv_prom_wake)
  qed
  then show ?thesis by simp
qed

lemma delivers_D:
  "delivers x (Returned i k (Queued cl) v) \<Longrightarrow>
    \<exists>t. x = Finished t v \<and> t_origin t = (i, k) \<and> t_sync t \<and> t_call t = cl"
  by (cases x) auto


subsection \<open>The worker running alone\<close>

lemma wrun_0 [simp]: "wrun eng 0 c = c"
  by (simp add: wrun_def)

lemma wrun_Suc: "wrun eng (Suc n) c = wrun eng n (act eng c (Run Worker))"
  by (simp add: wrun_def run_def)

lemma wrun_add: "wrun eng (m + n) c = wrun eng n (wrun eng m c)"
  by (simp add: wrun_def replicate_add run_append)

lemma act_worker:
  "act eng (s, tr) (Run Worker) =
     (case wstep eng s of None \<Rightarrow> (s, tr) | Some (s', evs) \<Rightarrow> (s', tr @ evs))"
  by (simp add: act_def step_def split: option.splits)

lemma worker_cycle:
  assumes "wpc s = W_WaitPred" "mRunning s" "mRenderEngine s \<noteq> None" "mFunctionCalls s = t # q"
  shows "wpc (fst (wrun eng 6 (s, tr))) = W_WaitPred \<and> mRunning (fst (wrun eng 6 (s, tr)))
    \<and> mRenderEngine (fst (wrun eng 6 (s, tr))) \<noteq> None
    \<and> mFunctionCalls (fst (wrun eng 6 (s, tr))) = q
    \<and> invoked (snd (wrun eng 6 (s, tr))) = invoked tr @ [t]"
  using assms
  by (auto simp: eval_nat_numeral wrun_Suc act_worker wstep_def)

lemma drain:
  "wpc s = W_WaitPred \<Longrightarrow> mRunning s \<Longrightarrow> mRenderEngine s \<noteq> None \<Longrightarrow> mFunctionCalls s = q \<Longrightarrow>
    wpc (fst (wrun eng (6 * length q) (s, tr))) = W_WaitPred
    \<and> mRunning (fst (wrun eng (6 * length q) (s, tr)))
    \<and> mRenderEngine (fst (wrun eng (6 * length q) (s, tr))) \<noteq> None
    \<and> mFunctionCalls (fst (wrun eng (6 * length q) (s, tr))) = []
    \<and> invoked (snd (wrun eng (6 * length q) (s, tr))) = invoked tr @ q"
proof (induction q arbitrary: s tr)
  case Nil
  then show ?case by simp
next
  case (Cons t q)
  obtain s1 tr1 where c1: "wrun eng 6 (s, tr) = (s1, tr1)" by (cases "wrun eng 6 (s, tr)")
  from worker_cycle [OF Cons.prems, of eng tr] c1
  have 1: "wpc s1 = W_WaitPred" "mRunning s1" "mRenderEngine s1 \<noteq> None"
    "mFunctionCalls s1 = q" "invoked tr1 = invoked tr @ [t]"
    by simp_all
  have "wrun eng (6 * length (t # q)) (s, tr) = wrun eng (6 * length q) (s1, tr1)"
    using c1 wrun_add [of eng 6 "6 * length q" "(s, tr)"] by simp
  with Cons.IH [OF 1(1-4), of tr1] 1(5) show ?case by simp
qed

lemma worker_boot:
  assumes "wpc s = W_Factory" "mThreadMutex s = None" "mInitializedMutex s = None" "mRunning s"
  shows "wpc (fst (wrun eng 7 (s, tr))) = W_CheckQueue \<and> mRunning (fst (wrun eng 7 (s, tr)))
    \<and> mRenderEngine (fst (wrun eng 7 (s, tr))) \<noteq> None
    \<and> mIsInitialized (fst (wrun eng 7 (s, tr)))
    \<and> mFunctionCalls (fst (wrun eng 7 (s, tr))) = mFunctionCalls s
    \<and> invoked (snd (wrun eng 7 (s, tr))) = invoked tr"
  using assms
  by (auto simp: eval_nat_numeral wrun_Suc act_worker wstep_def)

lemma worker_first:
  assumes "wpc s = W_CheckQueue" "mRunning s" "mRenderEngine s \<noteq> None" "mFunctionCalls s = t # q"
  shows "wpc (fst (wrun eng 4 (s, tr))) = W_WaitPred \<and> mRunning (fst (wrun eng 4 (s, tr)))
    \<and> mRenderEngine (fst (wrun eng 4 (s, tr))) \<noteq> None
    \<and> mIsInitialized (fst (wrun eng 4 (s, tr))) = mIsInitialized s
    \<and> mFunctionCalls (fst (wrun eng 4 (s, tr))) = q
    \<and> invoked (snd (wrun eng 4 (s, tr))) = invoked tr @ [t]"
  using assms
  by (auto simp: eval_nat_numeral wrun_Suc act_worker wstep_def)

lemma worker_idle:
  assumes "wpc s = W_CheckQueue" "mRunning s" "mFunctionCalls s = []"
  shows "wpc (fst (wrun eng 2 (s, tr))) = W_Sleep
    \<and> mIsInitialized (fst (wrun eng 2 (s, tr))) = mIsInitialized s
    \<and> mFunctionCalls (fst (wrun eng 2 (s, tr))) = []
    \<and> invoked (snd (wrun eng 2 (s, tr))) = invoked tr"
  using assms
  by (auto simp: eval_nat_numeral wrun_Suc act_worker wstep_def)

lemma worker_to_sleep:
  assumes "wpc s = W_WaitPred" "mRunning s" "mFunctionCalls s = []"
  shows "wpc (fst (wrun eng 1 (s, tr))) = W_Sleep
    \<and> mIsInitialized (fst (wrun eng 1 (s, tr))) = mIsInitialized s
    \<and> mFunctionCalls (fst (wrun eng 1 (s, tr))) = []
    \<and> invoked (snd (wrun eng 1 (s, tr))) = invoked tr"
  using assms
  by (auto simp: eval_nat_numeral wrun_Suc act_worker wstep_def)

lemma drain_init:
  "wpc s = W_WaitPred \<Longrightarrow> mRunning s \<Longrightarrow> mRenderEngine s \<noteq> None \<Longrightarrow>
    mIsInitialized (fst (wrun eng (6 * length (mFunctionCalls s)) (s, tr))) = mIsInitialized s"
proof (induction "mFunctionCalls s" arbitrary: s tr)
  case Nil
  then show ?case by simp
next
  case (Cons t q)
  obtain s1 tr1 where c1: "wrun eng 6 (s, tr) = (s1, tr1)" by (cases "wrun eng 6 (s, tr)")
  from worker_cycle [OF Cons.prems Cons.hyps(2) [symmetric], of eng tr] c1
  have 1: "wpc s1 = W_WaitPred" "mRunning s1" "mRenderEngine s1 \<noteq> None"
    "q = mFunctionCalls s1"
    by simp_all
  have i: "mIsInitialized s1 = mIsInitialized s"
    using c1 Cons.prems Cons.hyps(2) [symmetric]
    by (auto simp: eval_nat_numeral wrun_Suc act_worker wstep_def)
  have "wrun eng (6 * length (mFunctionCalls s)) (s, tr) =
      wrun eng (6 * length (mFunctionCalls s1)) (s1, tr1)"
    using c1 1(4) Cons.hyps(2) [symmetric] wrun_add [of eng 6 "6 * length q" "(s, tr)"] by simp
  with Cons.hyps(1) [OF 1(4) 1(1-3), of tr1] i show ?case by simp
qed

lemma sleep_stays: "wpc (fst c) = W_Sleep \<Longrightarrow> wrun eng n c = c"
proof (induction n)
  case 0
  then show ?case by simp
next
  case (Suc n)
  have "act eng c (Run Worker) = c"
    using Suc.prems by (cases c) (simp add: act_worker wstep_def)
  with Suc show ?case by (simp add: wrun_Suc)
qed

lemma boot_drain:
  assumes "wpc s = W_Factory" "mThreadMutex s = None" "mInitializedMutex s = None" "mRunning s"
  shows "wpc (fst (wrun eng (6 * length (mFunctionCalls s) + 9) (s, tr))) = W_Sleep
    \<and> mIsInitialized (fst (wrun eng (6 * length (mFunctionCalls s) + 9) (s, tr)))
    \<and> mFunctionCalls (fst (wrun eng (6 * length (mFunctionCalls s) + 9) (s, tr))) = []
    \<and> invoked (snd (wrun eng (6 * length (mFunctionCalls s) + 9) (s, tr))) =
        invoked tr @ mFunctionCalls s"
proof -
  obtain s1 tr1 where c1: "wrun eng 7 (s, tr) = (s1, tr1)" by (cases "wrun eng 7 (s, tr)")
  from worker_boot [OF assms, of eng tr] c1
  have 1: "wpc s1 = W_CheckQueue" "mRunning s1" "mRenderEngine s1 \<noteq> None" "mIsInitialized s1"
    "mFunctionCalls s1 = mFunctionCalls s" "invoked tr1 = invoked tr"
    by simp_all
  show ?thesis
  proof (cases "mFunctionCalls s")
    case Nil
    have "wrun eng (6 * length (mFunctionCalls s) + 9) (s, tr) = wrun eng 2 (s1, tr1)"
      using Nil c1 wrun_add [of eng 7 2 "(s, tr)"] by simp
    with worker_idle [OF 1(1,2), of eng tr1] 1 Nil show ?thesis by simp
  next
    case (Cons t q)
    obtain s2 tr2 where c2: "wrun eng 4 (s1, tr1) = (s2, tr2)" by (cases "wrun eng 4 (s1, tr1)")
    from worker_first [OF 1(1-3), of t q eng tr1] 1 Cons c2
    have 2: "wpc s2 = W_WaitPred" "mRunning s2" "mRenderEngine s2 \<noteq> None" "mIsInitialized s2"
      "mFunctionCalls s2 = q" "invoked tr2 = invoked tr @ [t]"
      by simp_all
    obtain s3 tr3 where c3: "wrun eng (6 * length q) (s2, tr2) = (s3, tr3)"
      by (cases "wrun eng (6 * length q) (s2, tr2)")
    from drain [OF 2(1-3,5), of eng tr2] drain_init [OF 2(1-3), of eng tr2] 2 c3
    have 3: "wpc s3 = W_WaitPred" "mRunning s3" "mIsInitialized s3" "mFunctionCalls s3 = []"
      "invoked tr3 = invoked tr @ t # q"
      by simp_all
    obtain s4 tr4 where c4: "wrun eng 1 (s3, tr3) = (s4, tr4)" by (cases "wrun eng 1 (s3, tr3)")
    from worker_to_sleep [OF 3(1,2,4), of eng tr3] 3 c4
    have 4: "wpc s4 = W_Sleep" "mIsInitialized s4" "mFunctionCalls s4 = []"
      "invoked tr4 = invoked tr @ t # q"
      by simp_all
    have "6 * length (mFunctionCalls s) + 9 = 7 + (4 + (6 * length q + (1 + 3)))"
      using Cons by simp
    then have "wrun eng (6 * length (mFunctionCalls s) + 9) (s, tr) = wrun eng 3 (s4, tr4)"
      using c1 c2 c3 c4 by (simp only: wrun_add)
    with sleep_stays [of "(s4, tr4)" eng 3] 4 Cons show ?thesis by simp
  qed
qed




subsection \<open>Blocking calls\<close>

text \<open>
  C2.  Whatever the schedule: when a blocking queued call returns the value \<open>v\<close>, the
  worker has before that finished the task built by that very invocation (same caller, same
  call number, same member function and arguments), and \<open>v\<close> is the value it set on the
  promise; and a caller at \<^verbatim>\<open>resultFuture.get()\<close> whose promise is not set cannot move.
\<close>

theorem C2_blocking_call_returns_after_task:
  assumes "tr = trace_of eng progs sched" and "s = state_of eng progs sched"
    and "n < length tr" and "tr ! n = Returned i k (Queued cl) v" and "is_sync cl"
  shows "(\<exists>m<n. \<exists>t. tr ! m = Finished t v \<and> t_origin t = (i, k) \<and> t_sync t \<and> t_call t = cl)
    \<and> (\<forall>j c. j < length (callers s) \<and> c_pc (callers s ! j) = C_Get c
          \<and> map_of (promises s) (j, c_count (callers s ! j)) = None \<longrightarrow>
          step eng (Caller j) s = None)"
proof -
  have "ordered sync_return delivers tr"
    using assms(1) inv_ret_reach [of eng sched progs] by (simp add: inv_ret_def trace_of_def)
  with assms(3-5) obtain m where m: "m < n" "delivers (tr ! m) (tr ! n)"
    by (auto simp: ordered_def)
  from delivers_D [OF m(2) [unfolded assms(4)]] m(1) have a:
    "\<exists>m<n. \<exists>t. tr ! m = Finished t v \<and> t_origin t = (i, k) \<and> t_sync t \<and> t_call t = cl"
    by blast
  have b: "\<forall>j c. j < length (callers s) \<and> c_pc (callers s ! j) = C_Get c
          \<and> map_of (promises s) (j, c_count (callers s ! j)) = None \<longrightarrow>
          step eng (Caller j) s = None"
    by (simp add: step_def cstep_def cbody_def)
  from a b show ?thesis ..
qed

theorem C2_blocking_call_returns_after_task_witness:
  "\<exists>m<9. \<exists>t. trace_of demo_engine demo_progs demo_sched ! m = Finished t (VBool True)
     \<and> t_origin t = (0, 0) \<and> t_sync t \<and> t_call t = UseProtectedContext True"
proof -
  have a: "9 < length (trace_of demo_engine demo_progs demo_sched)"
    by code_simp
  have b: "trace_of demo_engine demo_progs demo_sched ! 9 =
      Returned 0 0 (Queued (UseProtectedContext True)) (VBool True)"
    by code_simp
  have c: "is_sync (UseProtectedContext True)" by simp
  from C2_blocking_call_returns_after_task [OF refl refl a b c] show ?thesis
    by (rule conjunct1)
qed



subsection \<open>Initialisation\<close>

lemma in_body_init_done: "in_body p \<Longrightarrow> init_done p \<and> has_engine p"
  by (cases p) simp_all

lemma not_init_done_inflight: "\<not> init_done p \<Longrightarrow> inflight p = []"
  by (cases p) simp_all



text \<open>
  C9.  Whatever the schedule: every engine call of a task comes after the assignment of
  \<^verbatim>\<open>mIsInitialized\<close>, which comes after the return of the factory; while the worker is
  between the test of the queue and the end of a task the flag is set and
  \<^verbatim>\<open>mRenderEngine\<close> is non-null, and the worker never dereferences a null engine or takes
  the front of an empty queue; as long as the flag is not set no task has run and the queue
  holds every task pushed so far, in the order of the pushes; and from the call of the
  factory, with the mutexes free and \<^verbatim>\<open>mRunning\<close> true, the worker left alone sets the
  flag and runs exactly those tasks, in that order.
\<close>

theorem C9_no_task_before_initialization:
  assumes "s = state_of eng progs sched" and "tr = trace_of eng progs sched"
  shows "ordered is_invoked (\<lambda>x y. x = InitSet) tr
    \<and> ordered is_initset (\<lambda>x y. x = Constructed Worker) tr
    \<and> (in_body (wpc s) \<longrightarrow> mIsInitialized s \<and> mRenderEngine s \<noteq> None)
    \<and> wpc s \<noteq> W_Fault
    \<and> (\<not> mIsInitialized s \<longrightarrow> invoked tr = [] \<and> mFunctionCalls s = pushed tr)
    \<and> (wpc s = W_Factory \<and> mThreadMutex s = None \<and> mInitializedMutex s = None \<and> mRunning s
        \<longrightarrow> mIsInitialized (fst (wrun eng (6 * length (mFunctionCalls s) + 9) (s, tr)))
          \<and> mFunctionCalls (fst (wrun eng (6 * length (mFunctionCalls s) + 9) (s, tr))) = []
          \<and> invoked (snd (wrun eng (6 * length (mFunctionCalls s) + 9) (s, tr))) = pushed tr)"
proof -
  have sys: "inv_sys s" using assms by (simp add: inv_sys_reach)
  have life: "inv_life (s, tr)"
    using assms inv_life_reach [of eng sched progs] by (simp add: state_of_def trace_of_def)
  have ord: "inv_order (s, tr)"
    using assms inv_order_reach [of eng sched progs] by (simp add: state_of_def trace_of_def)
  have fifo: "pushed tr = invoked tr @ inflight (wpc s) @ mFunctionCalls s"
    using assms inv_fifo_reach [of eng sched progs]
    by (simp add: inv_fifo_def state_of_def trace_of_def)
  have i0: "mIsInitialized s = init_done (wpc s)"
    using sys by (simp add: inv_sys_def inv_init_def)
  have 1: "ordered is_invoked (\<lambda>x y. x = InitSet) tr"
    and 2: "ordered is_initset (\<lambda>x y. x = Constructed Worker) tr"
    using ord by (simp_all add: inv_order_def)
  have 3: "in_body (wpc s) \<longrightarrow> mIsInitialized s \<and> mRenderEngine s \<noteq> None"
    using sys i0 in_body_init_done [of "wpc s"] by (auto simp: inv_sys_def inv_eng_def)
  have 4: "wpc s \<noteq> W_Fault"
    using sys by (simp add: inv_sys_def inv_eng_def)
  have 5: "\<not> mIsInitialized s \<longrightarrow> invoked tr = [] \<and> mFunctionCalls s = pushed tr"
    using life i0 fifo not_init_done_inflight [of "wpc s"] by (simp add: inv_life_def)
  have 6: "wpc s = W_Factory \<and> mThreadMutex s = None \<and> mInitializedMutex s = None \<and> mRunning s
        \<longrightarrow> mIsInitialized (fst (wrun eng (6 * length (mFunctionCalls s) + 9) (s, tr)))
          \<and> mFunctionCalls (fst (wrun eng (6 * length (mFunctionCalls s) + 9) (s, tr))) = []
          \<and> invoked (snd (wrun eng (6 * length (mFunctionCalls s) + 9) (s, tr))) = pushed tr"
  proof (intro impI, elim conjE)
    assume a: "wpc s = W_Factory" "mThreadMutex s = None" "mInitializedMutex s = None"
      "mRunning s"
    from a(1) i0 have "\<not> mIsInitialized s" by simp
    with 5 boot_drain [OF a, of eng tr]
    show "mIsInitialized (fst (wrun eng (6 * length (mFunctionCalls s) + 9) (s, tr)))
          \<and> mFunctionCalls (fst (wrun eng (6 * length (mFunctionCalls s) + 9) (s, tr))) = []
          \<and> invoked (snd (wrun eng (6 * length (mFunctionCalls s) + 9) (s, tr))) = pushed tr"
      by simp
  qed
  from 1 2 3 4 5 6 show ?thesis by blast
qed

theorem C9_no_task_before_initialization_witness:
  "\<not> mIsInitialized (state_of demo_engine demo_progs boot_sched)
   \<and> mFunctionCalls (state_of demo_engine demo_progs boot_sched) =
       [\<lparr>t_call = PrimeCache, t_origin = (1, 0), t_sync = False\<rparr>,
        \<lparr>t_call = DrawLayers 0 [] 0 False 0, t_origin = (1, 1), t_sync = True\<rparr>]
   \<and> invoked (snd (wrun demo_engine
        (6 * length (mFunctionCalls (state_of demo_engine demo_progs boot_sched)) + 9)
        (state_of demo_engine demo_progs boot_sched,
         trace_of demo_engine demo_progs boot_sched))) =
       [\<lparr>t_call = PrimeCache, t_origin = (1, 0), t_sync = False\<rparr>,
        \<lparr>t_call = DrawLayers 0 [] 0 False 0, t_origin = (1, 1), t_sync = True\<rparr>]"
proof -
  have a: "wpc (state_of demo_engine demo_progs boot_sched) = W_Factory"
    "mThreadMutex (state_of demo_engine demo_progs boot_sched) = None"
    "mInitializedMutex (state_of demo_engine demo_progs boot_sched) = None"
    "mRunning (state_of demo_engine demo_progs boot_sched)"
    "\<not> mIsInitialized (state_of demo_engine demo_progs boot_sched)"
    by code_simp+
  have b: "pushed (trace_of demo_engine demo_progs boot_sched) =
       [\<lparr>t_call = PrimeCache, t_origin = (1, 0), t_sync = False\<rparr>,
        \<lparr>t_call = DrawLayers 0 [] 0 False 0, t_origin = (1, 1), t_sync = True\<rparr>]"
    by code_simp
  note t = C9_no_task_before_initialization [OF refl refl, of demo_engine demo_progs boot_sched]
  from t a have q: "mFunctionCalls (state_of demo_engine demo_progs boot_sched) =
      pushed (trace_of demo_engine demo_progs boot_sched)"
    by blast
  from t a have i: "invoked (snd (wrun demo_engine
        (6 * length (mFunctionCalls (state_of demo_engine demo_progs boot_sched)) + 9)
        (state_of demo_engine demo_progs boot_sched,
         trace_of demo_engine demo_progs boot_sched))) =
      pushed (trace_of demo_engine demo_progs boot_sched)"
    by blast
  from a(5) q i b show ?thesis by simp
qed

end
